theory Spec2Isabelle
  imports
    Main
    "HOL-Library.Char_ord"
    "HOL-Library.List_Lexorder"
    "HOL-Library.Product_Lexorder"
    "HOL-Library.Multiset"
begin

section \<open>JavaScript strings and arrays\<close>

text \<open>
  A JavaScript string is modelled as a \<open>string\<close>: a list of code units, here restricted to
  the code units below 256. Offsets are JavaScript numbers holding integers, modelled as
  \<open>int\<close>. The order on strings (\<open>a < b\<close> in \<open>asciiCompare\<close>) is the lexicographic order
  on code units, which is the order of \<open>List_Lexorder\<close> over \<open>Char_ord\<close>.
\<close>

definition newline :: char where
  "newline = CHR 0x0A"

definition squote :: char where
  "squote = CHR 0x27"

definition dquote :: char where
  "dquote = CHR 0x22"

text \<open>The class \<open>\s\<close> of regular expressions, which is also what \<open>trim\<close> removes:
  tab, line feed, vertical tab, form feed, carriage return, space and no-break space
  (the members of the class below 256).\<close>

definition isWhiteSpace :: "char \<Rightarrow> bool" where
  "isWhiteSpace c =
     (c = CHR 0x09 \<or> c = CHR 0x0A \<or> c = CHR 0x0B \<or> c = CHR 0x0C \<or> c = CHR 0x0D
      \<or> c = CHR 0x20 \<or> c = CHR 0xA0)"

definition trim :: "string \<Rightarrow> string" where
  "trim s = rev (dropWhile isWhiteSpace (rev (dropWhile isWhiteSpace s)))"

text \<open>\<open>s.slice(a, b)\<close>: a negative index counts from the end, every index is clamped to
  the string, and an empty range gives the empty string.\<close>

definition sliceIndex :: "string \<Rightarrow> int \<Rightarrow> nat" where
  "sliceIndex s a =
     (let len = int (length s) in nat (if a < 0 then max (len + a) 0 else min a len))"

definition slice :: "string \<Rightarrow> int \<Rightarrow> int \<Rightarrow> string" where
  "slice s a b = take (sliceIndex s b - sliceIndex s a) (drop (sliceIndex s a) s)"

definition sliceFrom :: "string \<Rightarrow> int \<Rightarrow> string" where
  "sliceFrom s a = drop (sliceIndex s a) s"

text \<open>\<open>s.indexOf(needle)\<close>: the first position where \<open>needle\<close> occurs, or \<open>-1\<close>.\<close>

fun indexOfFrom :: "nat \<Rightarrow> string \<Rightarrow> string \<Rightarrow> int" where
  "indexOfFrom i needle [] = (if needle = [] then int i else - 1)"
| "indexOfFrom i needle (c # cs) =
     (if take (length needle) (c # cs) = needle then int i
      else indexOfFrom (Suc i) needle cs)"

definition indexOf :: "string \<Rightarrow> string \<Rightarrow> int" where
  "indexOf s needle = indexOfFrom 0 needle s"

definition startsWith :: "string \<Rightarrow> string \<Rightarrow> bool" where
  "startsWith s p = (take (length p) s = p)"

definition endsWith :: "string \<Rightarrow> string \<Rightarrow> bool" where
  "endsWith s p = (length p \<le> length s \<and> drop (length s - length p) s = p)"

text \<open>\<open>xs.join(sep)\<close> on an array of strings.\<close>

fun join :: "string \<Rightarrow> string list \<Rightarrow> string" where
  "join sep [] = []"
| "join sep [x] = x"
| "join sep (x # y # ys) = x @ sep @ join sep (y # ys)"

text \<open>
  \<open>xs.sort(compare)\<close>. Every comparator of this program is consistent (a total preorder),
  and for such a comparator the language fixes the result: the stable arrangement of the
  elements in ascending order. It is computed here by stable insertion: an element is put
  before the first element it does not exceed.
\<close>

fun insertBy :: "('a \<Rightarrow> 'a \<Rightarrow> int) \<Rightarrow> 'a \<Rightarrow> 'a list \<Rightarrow> 'a list" where
  "insertBy compare x [] = [x]"
| "insertBy compare x (y # ys) =
     (if compare x y \<le> 0 then x # y # ys else y # insertBy compare x ys)"

definition sortBy :: "('a \<Rightarrow> 'a \<Rightarrow> int) \<Rightarrow> 'a list \<Rightarrow> 'a list" where
  "sortBy compare xs = foldr (insertBy compare) xs []"

section \<open>Configuration (types.ts, options.ts)\<close>

datatype AttributeLayout = AttributeInline | AttributePreserve

datatype ClassLayout = ClassInline | ClassPreserve

datatype DirectiveStyle = Short | Long

datatype SameNameMode = Ignore | RemoveValue | AddValue

record ResolvedVuenifyOptions =
  attributeLayout :: AttributeLayout
  classLayout :: ClassLayout
  directiveOrder :: "string list"
  directiveStyle :: DirectiveStyle
  normalizeDirectives :: bool
  orderAttributes :: bool
  orderDirectives :: bool
  removeDuplicates :: bool
  sameNameMode :: SameNameMode
  sortClasses :: bool

text \<open>The public options: every property may be absent.\<close>

record VuenifyOptions =
  opt_attributeLayout :: "AttributeLayout option"
  opt_classLayout :: "ClassLayout option"
  opt_directiveOrder :: "string list option"
  opt_directiveStyle :: "DirectiveStyle option"
  opt_normalizeDirectives :: "bool option"
  opt_orderAttributes :: "bool option"
  opt_orderDirectives :: "bool option"
  opt_removeDuplicates :: "bool option"
  opt_sameNameMode :: "SameNameMode option"
  opt_sortClasses :: "bool option"

definition defaultOptions :: ResolvedVuenifyOptions where
  "defaultOptions =
     \<lparr> attributeLayout = AttributeInline,
       classLayout = ClassInline,
       directiveOrder = [''if'', ''else'', ''else-if'', ''for'', ''on'', ''model'', ''bind''],
       directiveStyle = Short,
       normalizeDirectives = True,
       orderAttributes = True,
       orderDirectives = True,
       removeDuplicates = True,
       sameNameMode = Ignore,
       sortClasses = True \<rparr>"

definition orDefault :: "'a option \<Rightarrow> 'a \<Rightarrow> 'a" where
  "orDefault v d = (case v of None \<Rightarrow> d | Some x \<Rightarrow> x)"

definition resolveOptions :: "VuenifyOptions option \<Rightarrow> ResolvedVuenifyOptions" where
  "resolveOptions options =
     (case options of
        None \<Rightarrow> defaultOptions
      | Some u \<Rightarrow>
          \<lparr> attributeLayout = orDefault (opt_attributeLayout u) (attributeLayout defaultOptions),
            classLayout = orDefault (opt_classLayout u) (classLayout defaultOptions),
            directiveOrder = orDefault (opt_directiveOrder u) (directiveOrder defaultOptions),
            directiveStyle = orDefault (opt_directiveStyle u) (directiveStyle defaultOptions),
            normalizeDirectives =
              orDefault (opt_normalizeDirectives u) (normalizeDirectives defaultOptions),
            orderAttributes = orDefault (opt_orderAttributes u) (orderAttributes defaultOptions),
            orderDirectives = orDefault (opt_orderDirectives u) (orderDirectives defaultOptions),
            removeDuplicates = orDefault (opt_removeDuplicates u) (removeDuplicates defaultOptions),
            sameNameMode = orDefault (opt_sameNameMode u) (sameNameMode defaultOptions),
            sortClasses = orDefault (opt_sortClasses u) (sortClasses defaultOptions) \<rparr>)"

section \<open>The parsed template (the nodes of the external parser)\<close>

text \<open>
  A node's location: \<open>loc.start.offset\<close>, \<open>loc.end.offset\<close> and \<open>loc.source\<close>.
\<close>

record SourceLocation =
  startOffset :: int
  endOffset :: int
  source :: string

text \<open>
  A prop is a static attribute or a directive. Of an attribute the program reads the name,
  whether a value is present and its \<open>content\<close>, and the location. Of a directive it reads
  the name, the source text of the argument when there is one, the contents of the
  modifiers, the source text of the expression when there is one, and the location.
\<close>

datatype PropNode =
    AttributeNode (name: string) (valueOf: "string option") (loc: SourceLocation)
  | DirectiveNode (name: string) (arg: "string option") (modifiers: "string list")
      (exp: "string option") (loc: SourceLocation)

fun isAttributeNode :: "PropNode \<Rightarrow> bool" where
  "isAttributeNode (AttributeNode n v l) = True"
| "isAttributeNode (DirectiveNode n a m e l) = False"

fun isDirectiveNode :: "PropNode \<Rightarrow> bool" where
  "isDirectiveNode (AttributeNode n v l) = False"
| "isDirectiveNode (DirectiveNode n a m e l) = True"

fun cloneAttributeWithSource :: "PropNode \<Rightarrow> string \<Rightarrow> PropNode" where
  "cloneAttributeWithSource (AttributeNode n v l) newSource =
     AttributeNode n v (l\<lparr>source := newSource\<rparr>)"
| "cloneAttributeWithSource (DirectiveNode n a m e l) newSource =
     DirectiveNode n a m e (l\<lparr>source := newSource\<rparr>)"

definition cloneDirectiveWithSource :: "PropNode \<Rightarrow> string \<Rightarrow> PropNode" where
  "cloneDirectiveWithSource original newSource = cloneAttributeWithSource original newSource"

record Replacement =
  rstart :: int
  rend :: int
  rvalue :: string

section \<open>Directive normalisation (directiveTransform.ts)\<close>

definition buildDirective ::
  "string \<Rightarrow> string \<Rightarrow> string \<Rightarrow> string \<Rightarrow> string \<Rightarrow> DirectiveStyle \<Rightarrow> string" where
  "buildDirective raw nm ar modifierStr valuePart style =
     (let isSupported = (nm = ''bind'' \<or> nm = ''on'' \<or> nm = ''slot'') in
      if \<not> isSupported then raw
      else if style = Short \<and> nm = ''bind'' \<and> ar \<noteq> [] then '':'' @ ar @ modifierStr @ valuePart
      else if style = Short \<and> nm = ''on'' \<and> ar \<noteq> [] then ''@'' @ ar @ modifierStr @ valuePart
      else if style = Short \<and> nm = ''slot'' \<and> ar \<noteq> [] then ''#'' @ ar @ modifierStr @ valuePart
      else if style = Long \<and> nm = ''bind'' \<and> ar \<noteq> []
        then ''v-bind:'' @ ar @ modifierStr @ valuePart
      else if style = Long \<and> nm = ''on'' \<and> ar \<noteq> []
        then ''v-on:'' @ ar @ modifierStr @ valuePart
      else if style = Long \<and> nm = ''slot'' \<and> ar \<noteq> []
        then ''v-slot:'' @ ar @ modifierStr @ valuePart
      else raw)"

text \<open>The locals of \<open>getDirectiveTransform\<close>, in the order the function computes them.\<close>

definition argOf :: "PropNode \<Rightarrow> string" where
  "argOf prop = (case arg prop of None \<Rightarrow> [] | Some a \<Rightarrow> a)"

definition modifierStrOf :: "PropNode \<Rightarrow> string" where
  "modifierStrOf prop =
     (let mods = filter (\<lambda>m. m \<noteq> []) (modifiers prop) in
      if mods \<noteq> [] then ''.'' @ join ''.'' mods else [])"

definition hasValueOf :: "PropNode \<Rightarrow> bool" where
  "hasValueOf prop = (exp prop \<noteq> None)"

definition originalValuePart :: "PropNode \<Rightarrow> string" where
  "originalValuePart prop =
     (let raw = source (loc prop) in
      if hasValueOf prop then
        (let equalIndex = indexOf raw ''='' in
         if equalIndex \<noteq> - 1 then sliceFrom raw equalIndex else [])
      else [])"

definition normalizedArgOf :: "string \<Rightarrow> string" where
  "normalizedArgOf ar =
     (let isDynamic = (startsWith ar ''['' \<and> endsWith ar '']'') in
      trim (if isDynamic then slice ar 1 (- 1) else ar))"

definition valuePartOf :: "PropNode \<Rightarrow> SameNameMode \<Rightarrow> string" where
  "valuePartOf prop mode =
     (let ar = argOf prop;
          hasValue = hasValueOf prop;
          valuePart0 = originalValuePart prop in
      if name prop = ''bind'' \<and> ar \<noteq> [] \<and> mode \<noteq> Ignore then
        (let normalizedArg = normalizedArgOf ar;
             valuePart1 =
               (if mode = RemoveValue \<and> hasValue then
                  (let expContent = trim (case exp prop of None \<Rightarrow> [] | Some e \<Rightarrow> e) in
                   if expContent = normalizedArg then [] else valuePart0)
                else valuePart0)
         in if mode = AddValue \<and> \<not> hasValue
            then [CHR ''='', dquote] @ normalizedArg @ [dquote]
            else valuePart1)
      else valuePart0)"

definition newDirectiveOf :: "PropNode \<Rightarrow> DirectiveStyle \<Rightarrow> SameNameMode \<Rightarrow> string" where
  "newDirectiveOf prop style mode =
     buildDirective (source (loc prop)) (name prop) (argOf prop) (modifierStrOf prop)
       (valuePartOf prop mode) style"

definition getDirectiveTransform ::
  "PropNode \<Rightarrow> int \<Rightarrow> DirectiveStyle \<Rightarrow> SameNameMode \<Rightarrow> Replacement option" where
  "getDirectiveTransform prop templateOffset style mode =
     (if source (loc prop) = [] then None
      else
        (let raw = source (loc prop);
             newDirective = newDirectiveOf prop style mode in
         if raw \<noteq> newDirective then
           Some \<lparr> rstart = templateOffset + startOffset (loc prop),
                  rend = templateOffset + endOffset (loc prop),
                  rvalue = newDirective \<rparr>
         else None))"

section \<open>The attribute block (attributeFormatter.ts)\<close>

definition asciiCompare :: "string \<Rightarrow> string \<Rightarrow> int" where
  "asciiCompare a b = (if a = b then 0 else if a < b then - 1 else 1)"

text \<open>\<open>stableSort\<close>: every item is paired with its index, the pairs are sorted by the
  comparison with the index as tie-break, and the values are read back.\<close>

definition stableSort :: "'a list \<Rightarrow> ('a \<Rightarrow> 'a \<Rightarrow> int) \<Rightarrow> 'a list" where
  "stableSort items compare =
     map fst
       (sortBy
          (\<lambda>a b. let result = compare (fst a) (fst b) in
                 if result \<noteq> 0 then result else int (snd a) - int (snd b))
          (zip items [0..<length items]))"

record ElementNode =
  props :: "PropNode list"
  elementLoc :: SourceLocation

text \<open>
  The program compares props by reference (\<open>p !== props[idx]\<close>). A reference is modelled
  by where the object comes from: the parser's object at an index of \<open>element.props\<close>, or
  the clone the first pass made of it, which is a new object and differs from every
  parsed one.
\<close>

datatype ObjRef = Parsed nat | Cloned nat

type_synonym PropRef = "ObjRef \<times> PropNode"

subsection \<open>Layout: the separator\<close>

definition gapOf :: "ElementNode \<Rightarrow> PropNode \<Rightarrow> PropNode \<Rightarrow> string" where
  "gapOf element p0 p1 =
     (let fullContent = source (elementLoc element);
          firstEnd = endOffset (loc p0) - startOffset (elementLoc element);
          secondStart = startOffset (loc p1) - startOffset (elementLoc element)
      in slice fullContent firstEnd secondStart)"

definition separatorOf :: "ElementNode \<Rightarrow> ResolvedVuenifyOptions \<Rightarrow> string" where
  "separatorOf element options =
     (case props element of
        p0 # p1 # rest \<Rightarrow>
          (if attributeLayout options = AttributePreserve then
             (let gap = gapOf element p0 p1 in
              if newline \<in> set gap then gap else '' '')
           else '' '')
      | _ \<Rightarrow> '' '')"

subsection \<open>Classes\<close>

text \<open>\<open>rawValue.split(/\s+/)\<close>: the pieces between the runs of white space, the empty
  pieces at both ends included. The flag says that the previous code unit was white
  space; the piece being read is kept reversed.\<close>

fun splitPieces :: "bool \<Rightarrow> string \<Rightarrow> string \<Rightarrow> string list" where
  "splitPieces inGap piece [] = [rev piece]"
| "splitPieces inGap piece (c # cs) =
     (if isWhiteSpace c then
        (if inGap then splitPieces True piece cs else rev piece # splitPieces True [] cs)
      else splitPieces False (c # piece) cs)"

definition splitWhiteSpace :: "string \<Rightarrow> string list" where
  "splitWhiteSpace s = splitPieces False [] s"

definition classesOf :: "string \<Rightarrow> string list" where
  "classesOf rawValue = filter (\<lambda>c. c \<noteq> []) (splitWhiteSpace rawValue)"

text \<open>\<open>[...new Set(processed)]\<close>: a set keeps its members in insertion order, and adding
  a member it has changes nothing.\<close>

fun setAddAll :: "'a list \<Rightarrow> 'a list \<Rightarrow> 'a list" where
  "setAddAll members [] = members"
| "setAddAll members (x # xs) =
     setAddAll (if x \<in> set members then members else members @ [x]) xs"

definition uniqueOf :: "'a list \<Rightarrow> 'a list" where
  "uniqueOf xs = setAddAll [] xs"

definition processedOf :: "ResolvedVuenifyOptions \<Rightarrow> string \<Rightarrow> string list" where
  "processedOf options rawValue =
     (let classes = classesOf rawValue;
          processed1 = (if removeDuplicates options then uniqueOf classes else classes)
      in if sortClasses options then sortBy asciiCompare processed1 else processed1)"

definition quoteOf :: "string \<Rightarrow> char" where
  "quoteOf originalSource = (if squote \<in> set originalSource then squote else dquote)"

text \<open>\<open>originalSource.match(/\n(\s+)/)\<close>: the leftmost line feed that white space
  follows, and the whole run of white space after it.\<close>

fun indentMatch :: "string \<Rightarrow> string option" where
  "indentMatch [] = None"
| "indentMatch (c # cs) =
     (if c = newline \<and> takeWhile isWhiteSpace cs \<noteq> [] then Some (takeWhile isWhiteSpace cs)
      else indentMatch cs)"

text \<open>Reading \<open>processed[0]\<close> of an empty array gives \<open>undefined\<close>, which the string
  concatenation turns into the text \<open>undefined\<close>.\<close>

definition rebuiltValueOf :: "ResolvedVuenifyOptions \<Rightarrow> string \<Rightarrow> string list \<Rightarrow> string" where
  "rebuiltValueOf options originalSource processed =
     (if classLayout options = ClassPreserve \<and> newline \<in> set originalSource then
        (let indent = (case indentMatch originalSource of Some i \<Rightarrow> i | None \<Rightarrow> ''  '')
         in (case processed of [] \<Rightarrow> ''undefined'' | c # cs \<Rightarrow> c)
            @ concat (map (\<lambda>c. [newline] @ indent @ c) (drop 1 processed)))
      else join '' '' processed)"

definition rebuiltOf :: "ResolvedVuenifyOptions \<Rightarrow> string \<Rightarrow> string \<Rightarrow> string" where
  "rebuiltOf options originalSource rawValue =
     (let quote = quoteOf originalSource
      in ''class='' @ [quote]
         @ rebuiltValueOf options originalSource (processedOf options rawValue) @ [quote])"

subsection \<open>First pass\<close>

text \<open>The callback of the first pass: \<open>Some\<close> clone when it rewrites the prop (and sets
  \<open>changed\<close>), \<open>None\<close> when it returns the prop itself.\<close>

definition directiveRewrite :: "ResolvedVuenifyOptions \<Rightarrow> PropNode \<Rightarrow> PropNode option" where
  "directiveRewrite options prop =
     (if normalizeDirectives options \<and> isDirectiveNode prop then
        (case getDirectiveTransform prop 0 (directiveStyle options) (sameNameMode options) of
           Some res \<Rightarrow>
             (if rvalue res \<noteq> source (loc prop)
              then Some (cloneDirectiveWithSource prop (rvalue res)) else None)
         | None \<Rightarrow> None)
      else None)"

definition transformProp :: "ResolvedVuenifyOptions \<Rightarrow> PropNode \<Rightarrow> PropNode option" where
  "transformProp options prop =
     (if isAttributeNode prop \<and> name prop = ''class'' \<and> valueOf prop \<noteq> None
         \<and> (sortClasses options \<or> removeDuplicates options) then
        (let rawValue = (case valueOf prop of Some v \<Rightarrow> v | None \<Rightarrow> []);
             originalSource = source (loc prop);
             rebuilt = rebuiltOf options originalSource rawValue
         in if rebuilt \<noteq> originalSource then Some (cloneAttributeWithSource prop rebuilt)
            else directiveRewrite options prop)
      else directiveRewrite options prop)"

definition transformedOf :: "ResolvedVuenifyOptions \<Rightarrow> PropNode list \<Rightarrow> PropRef list" where
  "transformedOf options ps =
     map (\<lambda>(prop, idx). case transformProp options prop of
                           Some clone \<Rightarrow> (Cloned idx, clone)
                         | None \<Rightarrow> (Parsed idx, prop))
       (zip ps [0..<length ps])"

definition changedByFirstPass :: "ResolvedVuenifyOptions \<Rightarrow> PropNode list \<Rightarrow> bool" where
  "changedByFirstPass options ps = list_ex (\<lambda>prop. transformProp options prop \<noteq> None) ps"

subsection \<open>Ordering and splice-back\<close>

text \<open>\<open>let i = 0; sorted.map((p) => (isKind(p) ? replacements[i++] : p))\<close>. Reading past
  the end of \<open>replacements\<close> would put \<open>undefined\<close> into the array; the result is \<open>None\<close>
  then.\<close>

fun spliceBack :: "('a \<Rightarrow> bool) \<Rightarrow> 'a list \<Rightarrow> nat \<Rightarrow> 'a list \<Rightarrow> 'a list option" where
  "spliceBack isKind replacements i [] = Some []"
| "spliceBack isKind replacements i (p # ps) =
     (if isKind p then
        (if i < length replacements
         then map_option (\<lambda>rest. replacements ! i # rest)
                (spliceBack isKind replacements (Suc i) ps)
         else None)
      else map_option (\<lambda>rest. p # rest) (spliceBack isKind replacements i ps))"

text \<open>The weight map: \<open>set\<close> overwrites, so a name listed twice keeps its last index.\<close>

definition weightMap :: "string list \<Rightarrow> (string \<rightharpoonup> int)" where
  "weightMap order =
     fold (\<lambda>(nm, index) m. m(nm \<mapsto> int index)) (zip order [0..<length order]) Map.empty"

definition weightOf :: "string list \<Rightarrow> string \<Rightarrow> int" where
  "weightOf order nm = (case weightMap order nm of Some w \<Rightarrow> w | None \<Rightarrow> 1000)"

definition directiveCompare :: "string list \<Rightarrow> PropNode \<Rightarrow> PropNode \<Rightarrow> int" where
  "directiveCompare order a b =
     (let aWeight = weightOf order (name a);
          bWeight = weightOf order (name b)
      in if aWeight \<noteq> bWeight then aWeight - bWeight else asciiCompare (name a) (name b))"

definition attributeCompare :: "PropNode \<Rightarrow> PropNode \<Rightarrow> int" where
  "attributeCompare a b =
     (let aHasValue = (valueOf a \<noteq> None);
          bHasValue = (valueOf b \<noteq> None)
      in if aHasValue \<noteq> bHasValue then (if aHasValue then - 1 else 1)
         else asciiCompare (name a) (name b))"

definition reorderDirectives :: "string list \<Rightarrow> PropRef list \<Rightarrow> PropRef list option" where
  "reorderDirectives order sortedProps =
     (let directives = filter (\<lambda>p. isDirectiveNode (snd p)) sortedProps;
          sortedDirectives =
            stableSort directives (\<lambda>a b. directiveCompare order (snd a) (snd b))
      in spliceBack (\<lambda>p. isDirectiveNode (snd p)) sortedDirectives 0 sortedProps)"

definition reorderAttributes :: "PropRef list \<Rightarrow> PropRef list option" where
  "reorderAttributes sortedProps =
     (let attributes = filter (\<lambda>p. isAttributeNode (snd p)) sortedProps;
          sortedAttributes = stableSort attributes (\<lambda>a b. attributeCompare (snd a) (snd b))
      in spliceBack (\<lambda>p. isAttributeNode (snd p)) sortedAttributes 0 sortedProps)"

text \<open>\<open>sorted.some((p, idx) => p !== props[idx])\<close>\<close>

definition movedFrom :: "PropRef list \<Rightarrow> bool" where
  "movedFrom sortedProps =
     list_ex (\<lambda>(p, idx). fst p \<noteq> Parsed idx) (zip sortedProps [0..<length sortedProps])"

subsection \<open>buildUnifiedAttributeReplacement\<close>

datatype JsError = TypeError | ParseError

text \<open>One ordering stage: the array and the flag \<open>changed\<close> go in and come out. An
  \<open>undefined\<close> entry makes the statements after it fail with a \<open>TypeError\<close>.\<close>

definition orderingStage ::
  "bool \<Rightarrow> (PropRef list \<Rightarrow> PropRef list option) \<Rightarrow> PropRef list \<times> bool
     \<Rightarrow> JsError + PropRef list \<times> bool" where
  "orderingStage enabled reorder st =
     (if enabled then
        (case reorder (fst st) of
           None \<Rightarrow> Inl TypeError
         | Some sortedProps \<Rightarrow>
             Inr (sortedProps, if \<not> snd st then movedFrom sortedProps else snd st))
      else Inr st)"

definition sortedOf ::
  "ResolvedVuenifyOptions \<Rightarrow> PropNode list \<Rightarrow> JsError + PropRef list \<times> bool" where
  "sortedOf options ps =
     (case orderingStage (orderDirectives options) (reorderDirectives (directiveOrder options))
             (transformedOf options ps, changedByFirstPass options ps) of
        Inl err \<Rightarrow> Inl err
      | Inr st \<Rightarrow> orderingStage (orderAttributes options) reorderAttributes st)"

definition buildUnifiedAttributeReplacement ::
  "ElementNode \<Rightarrow> int \<Rightarrow> ResolvedVuenifyOptions \<Rightarrow> JsError + Replacement option" where
  "buildUnifiedAttributeReplacement element templateOffset options =
     (if props element = [] then Inr None
      else
        (let separator = separatorOf element options in
         case sortedOf options (props element) of
           Inl err \<Rightarrow> Inl err
         | Inr (sortedProps, changed) \<Rightarrow>
             (if \<not> changed then Inr None
              else
                (let first = hd (props element);
                     lst = last (props element);
                     start = templateOffset + startOffset (loc first);
                     end' = templateOffset + endOffset (loc lst);
                     newValue = join separator (map (\<lambda>p. source (loc (snd p))) sortedProps)
                 in Inr (Some \<lparr> rstart = start, rend = end', rvalue = newValue \<rparr>)))))"

section \<open>The transformation (transformer.ts)\<close>

text \<open>
  The nodes of the template: an element (it has props, a location and an array of
  children), another node with an array of children, and a node without one.
\<close>

datatype TemplateChildNode =
    Element ElementNode "TemplateChildNode list"
  | Parent SourceLocation "TemplateChildNode list"
  | Leaf SourceLocation

text \<open>\<open>walk\<close> pushes onto the array \<open>replacements\<close>, which is passed along here; an
  exception ends the walk.\<close>

fun walk ::
    "int \<Rightarrow> ResolvedVuenifyOptions \<Rightarrow> TemplateChildNode \<Rightarrow> Replacement list
       \<Rightarrow> JsError + Replacement list"
  and walkEach ::
    "int \<Rightarrow> ResolvedVuenifyOptions \<Rightarrow> TemplateChildNode list \<Rightarrow> Replacement list
       \<Rightarrow> JsError + Replacement list"
where
  "walk contentStartOffset opts (Element node children) replacements =
     (case buildUnifiedAttributeReplacement node contentStartOffset opts of
        Inl err \<Rightarrow> Inl err
      | Inr None \<Rightarrow> walkEach contentStartOffset opts children replacements
      | Inr (Some res) \<Rightarrow> walkEach contentStartOffset opts children (replacements @ [res]))"
| "walk contentStartOffset opts (Parent l children) replacements =
     walkEach contentStartOffset opts children replacements"
| "walk contentStartOffset opts (Leaf l) replacements = Inr replacements"
| "walkEach contentStartOffset opts [] replacements = Inr replacements"
| "walkEach contentStartOffset opts (node # nodes) replacements =
     (case walk contentStartOffset opts node replacements of
        Inl err \<Rightarrow> Inl err
      | Inr replacements' \<Rightarrow> walkEach contentStartOffset opts nodes replacements')"

text \<open>
  The two parsers are libraries outside the repository, and \<open>vuenifyTransform\<close> takes them
  as parameters here. Of the descriptor that \<open>parseSfc\<close> returns the program reads the
  template block, if there is one: its content and its location. \<open>parseDom\<close> returns the
  root node or throws; of the root the program reads \<open>children\<close>, and checks that it is an
  array.
\<close>

record SFCTemplateBlock =
  content :: string
  blockLoc :: SourceLocation

record RootNode =
  rootChildren :: "TemplateChildNode list option"

definition vuenifyTransform ::
  "(string \<Rightarrow> SFCTemplateBlock option) \<Rightarrow> (string \<Rightarrow> JsError + RootNode) \<Rightarrow> string
     \<Rightarrow> VuenifyOptions option \<Rightarrow> Replacement list" where
  "vuenifyTransform parseSfc parseDom src options =
     (let opts = resolveOptions options in
      case parseSfc src of
        None \<Rightarrow> []
      | Some template \<Rightarrow>
          (if content template = [] \<or> trim (content template) = [] then []
           else
             (let contentStartOffset =
                    startOffset (blockLoc template)
                      + indexOf (source (blockLoc template)) (content template)
              in case parseDom (content template) of
                   Inl err \<Rightarrow> []
                 | Inr ast \<Rightarrow>
                     (case rootChildren ast of
                        None \<Rightarrow> []
                      | Some children \<Rightarrow>
                          (case walkEach contentStartOffset opts children [] of
                             Inl err \<Rightarrow> []
                           | Inr replacements \<Rightarrow> replacements)))))"

subsection \<open>applyEdits (the test utility)\<close>

definition applyEdits :: "string \<Rightarrow> Replacement list \<Rightarrow> string" where
  "applyEdits src edits =
     fold (\<lambda>r str. slice str 0 (rstart r) @ rvalue r @ sliceFrom str (rend r))
       (sortBy (\<lambda>a b. rstart b - rstart a) edits) src"

section \<open>Definitions used to state the properties\<close>

text \<open>The argument text with the brackets of a dynamic argument stripped, then trimmed.\<close>

definition strippedArgument :: "string \<Rightarrow> string" where
  "strippedArgument ar =
     trim (if ar \<noteq> [] \<and> hd ar = CHR ''['' \<and> last ar = CHR '']'' then butlast (tl ar) else ar)"

text \<open>Builders for the example inputs: a prop whose location ends where its source text
  ends.\<close>

definition locAt :: "int \<Rightarrow> string \<Rightarrow> SourceLocation" where
  "locAt at src = \<lparr> startOffset = at, endOffset = at + int (length src), source = src \<rparr>"

text \<open>\<open>:src="src"\<close> and \<open>@click="go"\<close> at offset 5.\<close>

definition bindSrc :: PropNode where
  "bindSrc =
     DirectiveNode ''bind'' (Some ''src'') [] (Some ''src'')
       (locAt 5 ('':src='' @ [dquote] @ ''src'' @ [dquote]))"

definition bindSrcBare :: PropNode where
  "bindSrcBare = DirectiveNode ''bind'' (Some ''src'') [] None (locAt 5 '':src'')"

definition onClick :: PropNode where
  "onClick =
     DirectiveNode ''on'' (Some ''click'') [] (Some ''go'')
       (locAt 5 (''@click='' @ [dquote] @ ''go'' @ [dquote]))"

text \<open>The sort key of the directive comparison: the weight, then the name.\<close>

definition directiveKey :: "string list \<Rightarrow> PropNode \<Rightarrow> int \<times> string" where
  "directiveKey order p = (weightOf order (name p), name p)"

text \<open>\<open>v-bind="a" id="x" v-if="y"\<close>, as the parser's objects 0, 1 and 2.\<close>

definition mixedProps :: "PropRef list" where
  "mixedProps =
     [(Parsed 0, DirectiveNode ''bind'' None [] (Some ''a'')
                   (locAt 5 (''v-bind='' @ [dquote] @ ''a'' @ [dquote]))),
      (Parsed 1, AttributeNode ''id'' (Some ''x'')
                   (locAt 16 (''id='' @ [dquote] @ ''x'' @ [dquote]))),
      (Parsed 2, DirectiveNode ''if'' None [] (Some ''y'')
                   (locAt 23 (''v-if='' @ [dquote] @ ''y'' @ [dquote])))]"

text \<open>The substring of the element's source text between the end of the first prop and
  the start of the second one.\<close>

definition originalGap :: "ElementNode \<Rightarrow> string" where
  "originalGap element =
     (let a = endOffset (loc (props element ! 0)) - startOffset (elementLoc element);
          b = startOffset (loc (props element ! 1)) - startOffset (elementLoc element)
      in take (nat (b - a)) (drop (nat a) (source (elementLoc element))))"

text \<open>The entries of a list that do not occur at a smaller index, in the order of the
  list.\<close>

definition firstOccurrences :: "'a list \<Rightarrow> 'a list" where
  "firstOccurrences xs =
     map (\<lambda>i. xs ! i) (filter (\<lambda>i. xs ! i \<notin> set (take i xs)) [0..<length xs])"

text \<open>An attribute \<open>name="value"\<close> in double quotes.\<close>

definition quoted :: "string \<Rightarrow> string \<Rightarrow> string" where
  "quoted nm v = nm @ ''='' @ [dquote] @ v @ [dquote]"

text \<open>The element \<open><div v-bind="a" v-if="x" v-model="y"></div>\<close> of the ordering tests,
  at offset 3 of the template content.\<close>

definition bindIfModelDiv :: ElementNode where
  "bindIfModelDiv =
     \<lparr> props =
         [DirectiveNode ''bind'' None [] (Some ''a'') (locAt 8 (quoted ''v-bind'' ''a'')),
          DirectiveNode ''if'' None [] (Some ''x'') (locAt 19 (quoted ''v-if'' ''x'')),
          DirectiveNode ''model'' None [] (Some ''y'') (locAt 28 (quoted ''v-model'' ''y''))],
       elementLoc =
         locAt 3 (''<div '' @ quoted ''v-bind'' ''a'' @ '' '' @ quoted ''v-if'' ''x'' @ '' ''
                   @ quoted ''v-model'' ''y'' @ ''></div>'') \<rparr>"

text \<open>The element of the layout test: \<open>id="a"\<close> and \<open>class="b"\<close>, each on a line of its
  own, indented by four spaces.\<close>

definition multiLineDiv :: ElementNode where
  "multiLineDiv =
     \<lparr> props =
         [AttributeNode ''id'' (Some ''a'') (locAt 12 (quoted ''id'' ''a'')),
          AttributeNode ''class'' (Some ''b'') (locAt 23 (quoted ''class'' ''b''))],
       elementLoc =
         locAt 3 (''<div'' @ [newline] @ ''    '' @ quoted ''id'' ''a'' @ [newline] @ ''    ''
                   @ quoted ''class'' ''b'' @ [newline] @ ''  ></div>'') \<rparr>"

definition preserveOptions :: ResolvedVuenifyOptions where
  "preserveOptions =
     defaultOptions \<lparr> attributeLayout := AttributePreserve, classLayout := ClassPreserve \<rparr>"

text \<open>The source text of a directive from its first \<open>=\<close> on, when the directive has an
  expression: the original value part.\<close>

definition originalValueText :: "PropNode \<Rightarrow> string" where
  "originalValueText prop =
     (if exp prop = None then [] else dropWhile (\<lambda>c. c \<noteq> CHR ''='') (source (loc prop)))"

text \<open>The text of a \<open>bind\<close> directive in a style, with a given value part; and the result
  of the normaliser for a new text: nothing when the text is the original one.\<close>

definition bindText :: "DirectiveStyle \<Rightarrow> PropNode \<Rightarrow> string \<Rightarrow> string" where
  "bindText style prop valuePart =
     (case style of Short \<Rightarrow> '':'' | Long \<Rightarrow> ''v-bind:'')
       @ argOf prop @ modifierStrOf prop @ valuePart"

definition replacementIfChanged :: "PropNode \<Rightarrow> int \<Rightarrow> string \<Rightarrow> Replacement option" where
  "replacementIfChanged prop templateOffset newText =
     (if newText = source (loc prop) then None
      else Some \<lparr> rstart = templateOffset + startOffset (loc prop),
                  rend = templateOffset + endOffset (loc prop),
                  rvalue = newText \<rparr>)"

text \<open>An element with the single prop \<open>class="b a"\<close> on a line of its own.\<close>

definition singleClassDiv :: ElementNode where
  "singleClassDiv =
     \<lparr> props = [AttributeNode ''class'' (Some ''b a'') (locAt 12 (quoted ''class'' ''b a''))],
       elementLoc =
         locAt 3 (''<div'' @ [newline] @ ''    '' @ quoted ''class'' ''b a'' @ [newline]
                   @ ''  ></div>'') \<rparr>"

text \<open>A class attribute whose value is a space, a line feed and a space; and the options
  with duplicate removal only and the class layout \<open>preserve\<close>.\<close>

definition blankClass :: PropNode where
  "blankClass =
     AttributeNode ''class'' (Some ('' '' @ [newline] @ '' ''))
       (locAt 5 (quoted ''class'' ('' '' @ [newline] @ '' '')))"

definition dedupPreserveOptions :: ResolvedVuenifyOptions where
  "dedupPreserveOptions =
     defaultOptions \<lparr> sortClasses := False, classLayout := ClassPreserve \<rparr>"

subsection \<open>Well-formed parse trees\<close>

text \<open>
  What the program relies on in the parser's output: the props of an element lie one
  after the other, each non-empty, from the start of the element on; the children lie one
  after the other, after the last prop and before the end of the element; a node without
  children does not end before it starts.
\<close>

fun nodeLoc :: "TemplateChildNode \<Rightarrow> SourceLocation" where
  "nodeLoc (Element node children) = elementLoc node"
| "nodeLoc (Parent l children) = l"
| "nodeLoc (Leaf l) = l"

fun wfProps :: "int \<Rightarrow> PropNode list \<Rightarrow> bool" where
  "wfProps lo [] = True"
| "wfProps lo (p # ps) =
     (lo \<le> startOffset (loc p) \<and> startOffset (loc p) < endOffset (loc p)
      \<and> wfProps (endOffset (loc p)) ps)"

fun propsEnd :: "int \<Rightarrow> PropNode list \<Rightarrow> int" where
  "propsEnd lo [] = lo"
| "propsEnd lo (p # ps) = propsEnd (endOffset (loc p)) ps"

fun wfNode :: "TemplateChildNode \<Rightarrow> bool"
  and wfNodes :: "int \<Rightarrow> int \<Rightarrow> TemplateChildNode list \<Rightarrow> bool"
where
  "wfNode (Element node children) =
     (wfProps (startOffset (elementLoc node)) (props node)
      \<and> wfNodes (propsEnd (startOffset (elementLoc node)) (props node))
           (endOffset (elementLoc node)) children)"
| "wfNode (Parent l children) = wfNodes (startOffset l) (endOffset l) children"
| "wfNode (Leaf l) = (startOffset l \<le> endOffset l)"
| "wfNodes lo hi [] = (lo \<le> hi)"
| "wfNodes lo hi (node # nodes) =
     (lo \<le> startOffset (nodeLoc node) \<and> wfNode node
      \<and> wfNodes (endOffset (nodeLoc node)) hi nodes)"

fun lastEnd :: "int \<Rightarrow> TemplateChildNode list \<Rightarrow> int" where
  "lastEnd lo [] = lo"
| "lastEnd lo (node # nodes) = lastEnd (endOffset (nodeLoc node)) nodes"

definition wfRoot :: "RootNode \<Rightarrow> bool" where
  "wfRoot ast =
     (case rootChildren ast of
        None \<Rightarrow> True
      | Some children \<Rightarrow> wfNodes 0 (lastEnd 0 children) children)"

text \<open>Replacements that lie one after the other between two offsets, each non-empty.\<close>

fun ordered :: "int \<Rightarrow> int \<Rightarrow> Replacement list \<Rightarrow> bool" where
  "ordered lo hi [] = (lo \<le> hi)"
| "ordered lo hi (r # rs) = (lo \<le> rstart r \<and> rstart r < rend r \<and> ordered (rend r) hi rs)"

subsection \<open>Example documents\<close>

text \<open>A single-file component whose only block is the template.\<close>

definition sfcDocument :: "string \<Rightarrow> string" where
  "sfcDocument templateContent = ''<template>'' @ templateContent @ ''</template>''"

definition templateBlock :: "string \<Rightarrow> SFCTemplateBlock" where
  "templateBlock templateContent =
     \<lparr> content = templateContent, blockLoc = locAt 10 templateContent \<rparr>"

text \<open>\<open><div class="b a"><span class="d c"></span></div>\<close> and its parse.\<close>

definition nestedContent :: string where
  "nestedContent =
     ''<div '' @ quoted ''class'' ''b a'' @ ''><span '' @ quoted ''class'' ''d c''
       @ ''></span></div>''"

definition nestedRoot :: RootNode where
  "nestedRoot =
     \<lparr> rootChildren = Some
         [Element
            \<lparr> props = [AttributeNode ''class'' (Some ''b a'') (locAt 5 (quoted ''class'' ''b a''))],
              elementLoc = locAt 0 nestedContent \<rparr>
            [Element
               \<lparr> props = [AttributeNode ''class'' (Some ''d c'')
                            (locAt 23 (quoted ''class'' ''d c''))],
                 elementLoc = locAt 17 (''<span '' @ quoted ''class'' ''d c'' @ ''></span>'') \<rparr>
               []]] \<rparr>"

text \<open>
  The document \<open><template><div class="' a='"></div></template>\<close>: the value of the class
  attribute, in double quotes, is the two tokens \<open>'\<close> and \<open>a='\<close>.
\<close>

definition quotesContent :: string where
  "quotesContent = ''<div class='' @ [dquote, squote] @ '' a='' @ [squote, dquote] @ ''></div>''"

definition quotesRoot :: RootNode where
  "quotesRoot =
     \<lparr> rootChildren = Some
         [Element
            \<lparr> props = [AttributeNode ''class'' (Some ([squote] @ '' a='' @ [squote]))
                         (locAt 5 (''class='' @ [dquote, squote] @ '' a='' @ [squote, dquote]))],
              elementLoc = locAt 0 quotesContent \<rparr>
            []] \<rparr>"

text \<open>
  The document \<open><template><div class='' a=''></div></template>\<close>: two attributes, \<open>class\<close>
  and \<open>a\<close>, each with an empty value in single quotes.
\<close>

definition rewrittenContent :: string where
  "rewrittenContent =
     ''<div class='' @ [squote, squote] @ '' a='' @ [squote, squote] @ ''></div>''"

definition rewrittenRoot :: RootNode where
  "rewrittenRoot =
     \<lparr> rootChildren = Some
         [Element
            \<lparr> props = [AttributeNode ''class'' (Some []) (locAt 5 (''class='' @ [squote, squote])),
                        AttributeNode ''a'' (Some []) (locAt 14 (''a='' @ [squote, squote]))],
              elementLoc = locAt 0 rewrittenContent \<rparr>
            []] \<rparr>"

text \<open>The two parsers, as far as these two documents go.\<close>

definition parseSfcOfExamples :: "string \<Rightarrow> SFCTemplateBlock option" where
  "parseSfcOfExamples src =
     (if src = sfcDocument quotesContent then Some (templateBlock quotesContent)
      else if src = sfcDocument rewrittenContent then Some (templateBlock rewrittenContent)
      else None)"

definition parseDomOfExamples :: "string \<Rightarrow> JsError + RootNode" where
  "parseDomOfExamples templateContent =
     (if templateContent = quotesContent then Inr quotesRoot
      else if templateContent = rewrittenContent then Inr rewrittenRoot
      else Inl ParseError)"

text \<open>The attribute \<open>class="it's"\<close>.\<close>

definition itsClass :: PropNode where
  "itsClass =
     AttributeNode ''class'' (Some (''it'' @ [squote] @ ''s''))
       (locAt 5 (quoted ''class'' (''it'' @ [squote] @ ''s'')))"

text \<open>A priority list of 1002 names: \<open>a\<close>, \<open>aa\<close>, \<open>aaa\<close> and so on up to 1001 letters, then
  \<open>zz\<close>; and the element \<open><div v-zz="1" v-custom="2"></div>\<close>.\<close>

definition manyNames :: "string list" where
  "manyNames = map (\<lambda>i. replicate (Suc i) CHR ''a'') [0..<1001] @ [''zz'']"

definition zzCustomDiv :: ElementNode where
  "zzCustomDiv =
     \<lparr> props =
         [DirectiveNode ''zz'' None [] (Some ''1'') (locAt 5 (quoted ''v-zz'' ''1'')),
          DirectiveNode ''custom'' None [] (Some ''2'') (locAt 14 (quoted ''v-custom'' ''2''))],
       elementLoc =
         locAt 0 (''<div '' @ quoted ''v-zz'' ''1'' @ '' '' @ quoted ''v-custom'' ''2''
                   @ ''></div>'') \<rparr>"

section \<open>Strings\<close>

lemma slice_1_minus_1: "slice s 1 (- 1) = butlast (tl s)"
proof (cases s)
  case Nil
  then show ?thesis by (simp add: slice_def sliceIndex_def)
next
  case (Cons c cs)
  have a: "sliceIndex (c # cs) 1 = 1"
    by (simp add: sliceIndex_def)
  have b: "sliceIndex (c # cs) (- 1) = length cs"
    by (simp add: sliceIndex_def)
  show ?thesis using Cons by (simp add: slice_def a b butlast_conv_take)
qed

lemma normalizedArgOf_strippedArgument: "normalizedArgOf ar = strippedArgument ar"
proof (cases ar)
  case Nil
  then show ?thesis
    by (simp add: normalizedArgOf_def strippedArgument_def startsWith_def endsWith_def)
next
  case (Cons c cs)
  have e: "endsWith ar '']'' \<longleftrightarrow> last ar = CHR '']''"
  proof -
    have "ar \<noteq> []" using Cons by simp
    then have "drop (length ar - 1) ar = [last ar]"
      by (metis append_butlast_last_id append_eq_conv_conj length_butlast)
    then show ?thesis using Cons by (simp add: endsWith_def)
  qed
  have s: "startsWith ar ''['' \<longleftrightarrow> hd ar = CHR ''[''"
    using Cons by (simp add: startsWith_def)
  show ?thesis
    using Cons e s by (simp add: normalizedArgOf_def strippedArgument_def slice_1_minus_1 Let_def)
qed

section \<open>The same-name policy of the directive normaliser\<close>

lemma valuePartOf_cases:
  "valuePartOf prop mode =
     (if name prop = ''bind'' \<and> argOf prop \<noteq> [] \<and> mode = RemoveValue \<and> exp prop \<noteq> None
          \<and> trim (the (exp prop)) = strippedArgument (argOf prop) then []
      else if name prop = ''bind'' \<and> argOf prop \<noteq> [] \<and> mode = AddValue \<and> exp prop = None
        then [CHR ''='', dquote] @ strippedArgument (argOf prop) @ [dquote]
      else originalValuePart prop)"
  by (cases mode; cases "exp prop")
    (simp_all add: valuePartOf_def hasValueOf_def Let_def normalizedArgOf_strippedArgument)

lemma newDirectiveOf_bind:
  "name prop = ''bind'' \<Longrightarrow> argOf prop \<noteq> [] \<Longrightarrow>
   newDirectiveOf prop style mode =
     (case style of Short \<Rightarrow> '':'' | Long \<Rightarrow> ''v-bind:'')
       @ argOf prop @ modifierStrOf prop @ valuePartOf prop mode"
  by (cases style) (simp_all add: newDirectiveOf_def buildDirective_def)

lemma indexOfFrom_char:
  "indexOfFrom i [c] s =
     (if c \<in> set s then int (i + length (takeWhile (\<lambda>x. x \<noteq> c) s)) else - 1)"
  by (induction s arbitrary: i) auto

lemma originalValuePart_text: "originalValuePart prop = originalValueText prop"
proof (cases "exp prop = None")
  case True
  then show ?thesis by (simp add: originalValuePart_def originalValueText_def hasValueOf_def)
next
  case False
  let ?raw = "source (loc prop)"
  let ?n = "length (takeWhile (\<lambda>x. x \<noteq> CHR ''='') ?raw)"
  obtain e where e: "exp prop = Some e" using False by blast
  have ov: "originalValuePart prop =
      (if indexOf ?raw ''='' \<noteq> - 1 then sliceFrom ?raw (indexOf ?raw ''='') else [])"
    by (simp add: originalValuePart_def hasValueOf_def Let_def e)
  have ot: "originalValueText prop = dropWhile (\<lambda>x. x \<noteq> CHR ''='') ?raw"
    by (simp add: originalValueText_def e)
  show ?thesis
  proof (cases "CHR ''='' \<in> set ?raw")
    case True
    have n: "?n \<le> length ?raw" by (rule length_takeWhile_le)
    have i: "indexOf ?raw ''='' = int ?n"
      using True by (simp add: indexOf_def indexOfFrom_char)
    have "sliceIndex ?raw (int ?n) = ?n"
      using n by (simp add: sliceIndex_def)
    then have "sliceFrom ?raw (int ?n) = dropWhile (\<lambda>x. x \<noteq> CHR ''='') ?raw"
      by (simp add: sliceFrom_def dropWhile_eq_drop)
    then show ?thesis
      unfolding ov ot i by simp
  next
    case nin: False
    then have i: "indexOf ?raw ''='' = - 1"
      by (simp add: indexOf_def indexOfFrom_char)
    have "\<forall>x\<in>set ?raw. x \<noteq> CHR ''=''" using nin by blast
    then have d: "dropWhile (\<lambda>x. x \<noteq> CHR ''='') ?raw = []"
      by (simp only: dropWhile_eq_Nil_conv)
    show ?thesis
      unfolding ov ot i d by simp
  qed
qed

lemma getDirectiveTransform_result:
  "source (loc prop) \<noteq> [] \<Longrightarrow>
   getDirectiveTransform prop templateOffset style mode
     = replacementIfChanged prop templateOffset (newDirectiveOf prop style mode)"
  by (auto simp: getDirectiveTransform_def replacementIfChanged_def Let_def)

lemma valuePartOf_other:
  assumes "name prop \<noteq> ''bind'' \<or> argOf prop = []"
  shows "valuePartOf prop mode = originalValuePart prop"
  using assms by (rule disjE) (simp_all add: valuePartOf_cases)

lemma newDirectiveOf_other:
  assumes "name prop \<noteq> ''bind'' \<or> argOf prop = []"
  shows "newDirectiveOf prop style mode = newDirectiveOf prop style Ignore"
  by (simp only: newDirectiveOf_def valuePartOf_other [OF assms])

lemma buildDirective_shape:
  "buildDirective raw nm ar m vp style = raw
   \<or> (\<exists>pre. buildDirective raw nm ar m vp style = pre @ ar @ m @ vp)"
proof -
  let ?b = "buildDirective raw nm ar m vp style"
  let ?rest = "ar @ m @ vp"
  have "?b = raw \<or> ?b = '':'' @ ?rest \<or> ?b = ''@'' @ ?rest \<or> ?b = ''#'' @ ?rest
        \<or> ?b = ''v-bind:'' @ ?rest \<or> ?b = ''v-on:'' @ ?rest \<or> ?b = ''v-slot:'' @ ?rest"
    by (simp add: buildDirective_def Let_def)
  then show ?thesis by blast
qed

lemma newDirectiveOf_Ignore:
  "newDirectiveOf prop style Ignore = source (loc prop)
   \<or> (\<exists>pre. newDirectiveOf prop style Ignore
          = pre @ argOf prop @ modifierStrOf prop @ originalValueText prop)"
proof -
  have "valuePartOf prop Ignore = originalValueText prop"
    by (simp add: valuePartOf_cases originalValuePart_text)
  then show ?thesis
    using buildDirective_shape [of "source (loc prop)" "name prop" "argOf prop"
        "modifierStrOf prop" "originalValueText prop" style]
    by (simp only: newDirectiveOf_def)
qed

lemma valuePartOf_bind:
  assumes "name prop = ''bind''" "argOf prop \<noteq> []"
  shows "valuePartOf prop Ignore = originalValueText prop"
    and "valuePartOf prop RemoveValue =
      (if exp prop \<noteq> None \<and> trim (the (exp prop)) = strippedArgument (argOf prop)
       then [] else originalValueText prop)"
    and "valuePartOf prop AddValue =
      (if exp prop = None
       then [CHR ''='', dquote] @ strippedArgument (argOf prop) @ [dquote]
       else originalValueText prop)"
proof -
  have g: "valuePartOf prop mode =
     (if mode = RemoveValue \<and> exp prop \<noteq> None
          \<and> trim (the (exp prop)) = strippedArgument (argOf prop) then []
      else if mode = AddValue \<and> exp prop = None
        then [CHR ''='', dquote] @ strippedArgument (argOf prop) @ [dquote]
      else originalValueText prop)" for mode
    unfolding valuePartOf_cases originalValuePart_text using assms by (simp only: simp_thms)
  show "valuePartOf prop Ignore = originalValueText prop"
    using g [of Ignore] by simp
  show "valuePartOf prop RemoveValue =
      (if exp prop \<noteq> None \<and> trim (the (exp prop)) = strippedArgument (argOf prop)
       then [] else originalValueText prop)"
    using g [of RemoveValue] by simp
  show "valuePartOf prop AddValue =
      (if exp prop = None
       then [CHR ''='', dquote] @ strippedArgument (argOf prop) @ [dquote]
       else originalValueText prop)"
    using g [of AddValue] by simp
qed

text \<open>
  C6. For a directive with a source text, in terms of what \<open>getDirectiveTransform\<close>
  returns. When the directive is \<open>bind\<close> with an argument, the new text is the sigil or
  \<open>v-bind:\<close>, the argument, the modifiers and a value part, and a replacement with that
  text is returned unless it equals the original text. Under \<open>ignore\<close> the value part is
  the original one (the source text from the first \<open>=\<close> on, when there is an expression).
  Under \<open>removeValue\<close> it is empty exactly when there is an expression whose trimmed text
  equals the argument with the dynamic brackets stripped and trimmed, and the original one
  otherwise. Under \<open>addValue\<close> it is \<open>="argument"\<close> (brackets stripped, trimmed) when there
  is no expression, and the original one otherwise. For any other directive the mode
  makes no difference to the result. Under \<open>ignore\<close> every replacement returned ends with
  the argument, the modifiers and the original value part.
\<close>

theorem same_name_policy:
  assumes "isDirectiveNode prop" and "source (loc prop) \<noteq> []"
  shows
    "(name prop = ''bind'' \<and> argOf prop \<noteq> [] \<longrightarrow>
        getDirectiveTransform prop templateOffset style Ignore
          = replacementIfChanged prop templateOffset
              (bindText style prop (originalValueText prop))
        \<and> getDirectiveTransform prop templateOffset style RemoveValue
          = replacementIfChanged prop templateOffset
              (bindText style prop
                 (if exp prop \<noteq> None \<and> trim (the (exp prop)) = strippedArgument (argOf prop)
                  then [] else originalValueText prop))
        \<and> getDirectiveTransform prop templateOffset style AddValue
          = replacementIfChanged prop templateOffset
              (bindText style prop
                 (if exp prop = None
                  then [CHR ''='', dquote] @ strippedArgument (argOf prop) @ [dquote]
                  else originalValueText prop)))
     \<and> (name prop \<noteq> ''bind'' \<or> argOf prop = [] \<longrightarrow>
          getDirectiveTransform prop templateOffset style mode
            = getDirectiveTransform prop templateOffset style Ignore)
     \<and> (\<forall>r. getDirectiveTransform prop templateOffset style Ignore = Some r \<longrightarrow>
          (\<exists>pre. rvalue r = pre @ argOf prop @ modifierStrOf prop @ originalValueText prop))"
proof -
  have b: "getDirectiveTransform prop templateOffset style m
           = replacementIfChanged prop templateOffset
               (bindText style prop (valuePartOf prop m))"
    if "name prop = ''bind''" "argOf prop \<noteq> []" for m
    using that assms(2)
    by (simp add: getDirectiveTransform_result newDirectiveOf_bind bindText_def)
  have c1: "name prop = ''bind'' \<and> argOf prop \<noteq> [] \<longrightarrow>
        getDirectiveTransform prop templateOffset style Ignore
          = replacementIfChanged prop templateOffset
              (bindText style prop (originalValueText prop))
        \<and> getDirectiveTransform prop templateOffset style RemoveValue
          = replacementIfChanged prop templateOffset
              (bindText style prop
                 (if exp prop \<noteq> None \<and> trim (the (exp prop)) = strippedArgument (argOf prop)
                  then [] else originalValueText prop))
        \<and> getDirectiveTransform prop templateOffset style AddValue
          = replacementIfChanged prop templateOffset
              (bindText style prop
                 (if exp prop = None
                  then [CHR ''='', dquote] @ strippedArgument (argOf prop) @ [dquote]
                  else originalValueText prop))"
  proof
    assume a: "name prop = ''bind'' \<and> argOf prop \<noteq> []"
    then have n: "name prop = ''bind''" "argOf prop \<noteq> []" by blast+
    show "getDirectiveTransform prop templateOffset style Ignore
          = replacementIfChanged prop templateOffset
              (bindText style prop (originalValueText prop))
        \<and> getDirectiveTransform prop templateOffset style RemoveValue
          = replacementIfChanged prop templateOffset
              (bindText style prop
                 (if exp prop \<noteq> None \<and> trim (the (exp prop)) = strippedArgument (argOf prop)
                  then [] else originalValueText prop))
        \<and> getDirectiveTransform prop templateOffset style AddValue
          = replacementIfChanged prop templateOffset
              (bindText style prop
                 (if exp prop = None
                  then [CHR ''='', dquote] @ strippedArgument (argOf prop) @ [dquote]
                  else originalValueText prop))"
      by (simp only: b [OF n] valuePartOf_bind [OF n])
  qed
  have c2: "name prop \<noteq> ''bind'' \<or> argOf prop = [] \<longrightarrow>
          getDirectiveTransform prop templateOffset style mode
            = getDirectiveTransform prop templateOffset style Ignore"
    using assms(2) newDirectiveOf_other [of "prop" style mode]
    by (simp add: getDirectiveTransform_result)
  have c3: "\<forall>r. getDirectiveTransform prop templateOffset style Ignore = Some r \<longrightarrow>
          (\<exists>pre. rvalue r = pre @ argOf prop @ modifierStrOf prop @ originalValueText prop)"
  proof (intro allI impI)
    fix r
    assume "getDirectiveTransform prop templateOffset style Ignore = Some r"
    then have "newDirectiveOf prop style Ignore \<noteq> source (loc prop)"
      and "rvalue r = newDirectiveOf prop style Ignore"
      using assms(2)
      by (auto simp: getDirectiveTransform_result replacementIfChanged_def split: if_splits)
    then show "\<exists>pre. rvalue r = pre @ argOf prop @ modifierStrOf prop @ originalValueText prop"
      using newDirectiveOf_Ignore [of "prop" style] by simp
  qed
  show ?thesis using c1 c2 c3 by blast
qed


theorem same_name_policy_witness:
  "isDirectiveNode bindSrc \<and> source (loc bindSrc) \<noteq> []
   \<and> name bindSrc = ''bind'' \<and> argOf bindSrc \<noteq> []
   \<and> getDirectiveTransform bindSrc 10 Short RemoveValue
       = Some \<lparr> rstart = 15, rend = 25, rvalue = '':src'' \<rparr>
   \<and> getDirectiveTransform bindSrc 10 Short Ignore = None
   \<and> getDirectiveTransform bindSrc 10 Long Ignore
       = Some \<lparr> rstart = 15, rend = 25, rvalue = ''v-bind:src='' @ [dquote] @ ''src'' @ [dquote] \<rparr>
   \<and> isDirectiveNode bindSrcBare \<and> source (loc bindSrcBare) \<noteq> []
   \<and> name bindSrcBare = ''bind'' \<and> argOf bindSrcBare \<noteq> []
   \<and> getDirectiveTransform bindSrcBare 10 Short AddValue
       = Some \<lparr> rstart = 15, rend = 19, rvalue = '':src='' @ [dquote] @ ''src'' @ [dquote] \<rparr>
   \<and> isDirectiveNode onClick \<and> source (loc onClick) \<noteq> [] \<and> name onClick \<noteq> ''bind''
   \<and> getDirectiveTransform onClick 10 Long RemoveValue
       = getDirectiveTransform onClick 10 Long Ignore
   \<and> getDirectiveTransform onClick 10 Long Ignore
       = Some \<lparr> rstart = 15, rend = 26, rvalue = ''v-on:click='' @ [dquote] @ ''go'' @ [dquote] \<rparr>
   \<and> originalValueText onClick = ''='' @ [dquote] @ ''go'' @ [dquote]"
proof -
  have d: "isDirectiveNode bindSrc" "isDirectiveNode bindSrcBare" "isDirectiveNode onClick"
    by (simp_all add: bindSrc_def bindSrcBare_def onClick_def)
  have n: "source (loc bindSrc) \<noteq> []" "source (loc bindSrcBare) \<noteq> []"
    "source (loc onClick) \<noteq> []"
    by (simp_all add: bindSrc_def bindSrcBare_def onClick_def locAt_def)
  have e1: "getDirectiveTransform bindSrc 10 Short RemoveValue
       = Some \<lparr> rstart = 15, rend = 25, rvalue = '':src'' \<rparr>"
    by code_simp
  have e2: "getDirectiveTransform bindSrc 10 Short Ignore = None"
    by code_simp
  have e3: "getDirectiveTransform bindSrc 10 Long Ignore
       = Some \<lparr> rstart = 15, rend = 25, rvalue = ''v-bind:src='' @ [dquote] @ ''src'' @ [dquote] \<rparr>"
    by code_simp
  have e4: "getDirectiveTransform bindSrcBare 10 Short AddValue
       = Some \<lparr> rstart = 15, rend = 19, rvalue = '':src='' @ [dquote] @ ''src'' @ [dquote] \<rparr>"
    by code_simp
  have e5: "getDirectiveTransform onClick 10 Long Ignore
       = Some \<lparr> rstart = 15, rend = 26, rvalue = ''v-on:click='' @ [dquote] @ ''go'' @ [dquote] \<rparr>"
    by code_simp
  have a: "name bindSrc = ''bind''" "argOf bindSrc \<noteq> []" "name bindSrcBare = ''bind''"
    "argOf bindSrcBare \<noteq> []" "name onClick \<noteq> ''bind''"
    by (simp_all add: bindSrc_def bindSrcBare_def onClick_def argOf_def)
  have t: "originalValueText onClick = ''='' @ [dquote] @ ''go'' @ [dquote]"
    by (simp add: originalValueText_def onClick_def locAt_def dquote_def)
  have o: "getDirectiveTransform onClick 10 Long RemoveValue
       = getDirectiveTransform onClick 10 Long Ignore"
    using same_name_policy [OF d(3) n(3), where mode = RemoveValue and style = Long
        and templateOffset = 10] a(5)
    by blast
  note w1 = same_name_policy [OF d(1) n(1), where mode = RemoveValue and style = Short
        and templateOffset = 10]
  note w2 = same_name_policy [OF d(2) n(2), where mode = AddValue and style = Short
        and templateOffset = 10]
  show ?thesis
    using w1 w2 d n e1 e2 e3 e4 e5 a t o by simp
qed

section \<open>Sorting and splice-back\<close>

lemma insertBy_insort_key:
  assumes "\<And>a b. cmp a b \<le> 0 \<longleftrightarrow> K a \<le> K b"
  shows "insertBy cmp x ys = insort_key K x ys"
  by (induction ys) (simp_all add: assms)

lemma sortBy_sort_key:
  assumes "\<And>a b. cmp a b \<le> 0 \<longleftrightarrow> K a \<le> K b"
  shows "sortBy cmp xs = sort_key K xs"
proof -
  have "insertBy cmp = insort_key K"
    using insertBy_insort_key [of cmp K, OF assms] by (intro ext)
  then show ?thesis by (simp add: sortBy_def sort_key_def)
qed

lemma sort_indexed_stable:
  fixes key :: "'a \<Rightarrow> 'k::linorder"
  shows "map fst (sort_key (\<lambda>p. (key (fst p), snd p)) (zip xs [0..<length xs])) = sort_key key xs"
proof -
  let ?K = "\<lambda>p :: 'a \<times> nat. (key (fst p), snd p)"
  let ?zs = "zip xs [0..<length xs]"
  let ?ys = "map fst (sort_key ?K ?zs)"
  have fz: "map fst ?zs = xs" by simp
  have m: "mset ?ys = mset xs"
  proof -
    have "mset ?ys = image_mset fst (mset (sort_key ?K ?zs))" by (simp only: mset_map)
    also have "\<dots> = image_mset fst (mset ?zs)" by (simp only: mset_sort)
    also have "\<dots> = mset (map fst ?zs)" by (simp only: mset_map)
    also have "\<dots> = mset xs" by (simp only: fz)
    finally show ?thesis .
  qed
  have s: "sorted (map key ?ys)"
  proof -
    have "sorted (map ?K (sort_key ?K ?zs))" by (rule sorted_sort_key)
    then have "sorted_wrt (\<lambda>a b. ?K a \<le> ?K b) (sort_key ?K ?zs)"
      by (simp add: sorted_map)
    then have "sorted_wrt (\<lambda>a b. key (fst a) \<le> key (fst b)) (sort_key ?K ?zs)"
      by (rule sorted_wrt_mono_rel [rotated]) (auto simp: less_eq_prod_def)
    then show ?thesis by (simp add: sorted_map sorted_wrt_map)
  qed
  have idx: "sorted_wrt (\<lambda>a b. snd a < snd b) ?zs"
  proof -
    have "sorted_wrt (<) (map snd ?zs)" by simp
    then show ?thesis unfolding sorted_wrt_map .
  qed
  have st: "filter (\<lambda>x. key k = key x) ?ys = filter (\<lambda>x. key k = key x) xs" for k
  proof -
    let ?P = "\<lambda>p :: 'a \<times> nat. key k = key (fst p)"
    have "sorted_wrt (\<lambda>a b. snd a < snd b) (filter ?P ?zs)"
      using idx by (rule sorted_wrt_filter)
    then have "sorted_wrt (\<lambda>a b. ?K a \<le> ?K b) (filter ?P ?zs)"
      by (rule sorted_wrt_mono_rel [rotated]) (auto simp: less_eq_prod_def)
    then have "sorted (map ?K (filter ?P ?zs))" by (simp add: sorted_map)
    then have "sort_key ?K (filter ?P ?zs) = filter ?P ?zs"
      by (rule sort_key_id_if_sorted)
    then have "filter ?P (sort_key ?K ?zs) = filter ?P ?zs"
      by (simp add: filter_sort)
    then have e: "map fst (filter ?P (sort_key ?K ?zs)) = map fst (filter ?P ?zs)"
      by (rule arg_cong)
    have a: "filter (\<lambda>x. key k = key x) (map fst S) = map fst (filter ?P S)"
      for S :: "('a \<times> nat) list"
      by (simp only: filter_map comp_def)
    have "filter (\<lambda>x. key k = key x) ?ys = map fst (filter ?P (sort_key ?K ?zs))"
      by (rule a)
    also have "\<dots> = map fst (filter ?P ?zs)" by (rule e)
    also have "\<dots> = filter (\<lambda>x. key k = key x) (map fst ?zs)" by (rule a [symmetric])
    also have "\<dots> = filter (\<lambda>x. key k = key x) xs" by (simp only: fz)
    finally show ?thesis .
  qed
  show ?thesis
    by (rule sym, rule properties_for_sort_key [OF m st s])
qed

lemma stableSort_sort_key:
  fixes key :: "'a \<Rightarrow> 'k::linorder"
  assumes lt: "\<And>a b. cmp a b < 0 \<longleftrightarrow> key a < key b"
    and eq: "\<And>a b. cmp a b = 0 \<longleftrightarrow> key a = key b"
  shows "stableSort xs cmp = sort_key key xs"
proof -
  let ?C = "\<lambda>(a :: 'a \<times> nat) b. let result = cmp (fst a) (fst b) in
                 if result \<noteq> 0 then result else int (snd a) - int (snd b)"
  let ?K = "\<lambda>p :: 'a \<times> nat. (key (fst p), snd p)"
  have "?C a b \<le> 0 \<longleftrightarrow> ?K a \<le> ?K b" for a b
  proof (cases "cmp (fst a) (fst b) = 0")
    case True
    then show ?thesis using eq [of "fst a" "fst b"] by (simp add: less_eq_prod_def)
  next
    case False
    then have "cmp (fst a) (fst b) \<le> 0 \<longleftrightarrow> key (fst a) < key (fst b)"
      using lt [of "fst a" "fst b"] by linarith
    then show ?thesis using False eq [of "fst a" "fst b"] by (auto simp: less_eq_prod_def Let_def)
  qed
  then have "sortBy ?C (zip xs [0..<length xs]) = sort_key ?K (zip xs [0..<length xs])"
    by (rule sortBy_sort_key)
  then show ?thesis
    unfolding stableSort_def by (simp only: sort_indexed_stable)
qed


lemma asciiCompare_less: "asciiCompare a b < 0 \<longleftrightarrow> a < b"
  by (simp add: asciiCompare_def)

lemma asciiCompare_eq: "asciiCompare a b = 0 \<longleftrightarrow> a = b"
  by (auto simp: asciiCompare_def)

lemma directiveCompare_less:
  "directiveCompare order a b < 0 \<longleftrightarrow> directiveKey order a < directiveKey order b"
  by (auto simp: directiveCompare_def directiveKey_def Let_def asciiCompare_less less_prod_def)

lemma directiveCompare_eq:
  "directiveCompare order a b = 0 \<longleftrightarrow> directiveKey order a = directiveKey order b"
  by (auto simp: directiveCompare_def directiveKey_def Let_def asciiCompare_eq)

lemma spliceBack_total:
  "i + length (filter isKind xs) \<le> length reps \<Longrightarrow> \<exists>ys. spliceBack isKind reps i xs = Some ys"
proof (induction xs arbitrary: i)
  case Nil
  then show ?case by simp
next
  case (Cons p ps)
  show ?case
  proof (cases "isKind p")
    case True
    then have "Suc i + length (filter isKind ps) \<le> length reps" and "i < length reps"
      using Cons.prems by simp_all
    then show ?thesis using Cons.IH [of "Suc i"] True by auto
  next
    case False
    then show ?thesis using Cons.IH [of i] Cons.prems by auto
  qed
qed

lemma spliceBack_kinds:
  "spliceBack isKind reps i xs = Some ys \<Longrightarrow> \<forall>r\<in>set reps. isKind r \<Longrightarrow>
   map isKind ys = map isKind xs"
proof (induction xs arbitrary: i ys)
  case Nil
  then show ?case by simp
next
  case (Cons p ps)
  then show ?case by (auto split: if_splits)
qed

lemma spliceBack_others:
  "spliceBack isKind reps i xs = Some ys \<Longrightarrow> j < length xs \<Longrightarrow> \<not> isKind (xs ! j) \<Longrightarrow>
   ys ! j = xs ! j"
proof (induction xs arbitrary: i ys j)
  case Nil
  then show ?case by simp
next
  case (Cons p ps)
  then show ?case by (cases j) (auto split: if_splits)
qed

lemma spliceBack_filter:
  "spliceBack isKind reps i xs = Some ys \<Longrightarrow> \<forall>r\<in>set reps. isKind r \<Longrightarrow>
   filter isKind ys = take (length (filter isKind xs)) (drop i reps)"
proof (induction xs arbitrary: i ys)
  case Nil
  then show ?case by simp
next
  case (Cons p ps)
  show ?case
  proof (cases "isKind p")
    case True
    then obtain rest where r: "i < length reps" "ys = reps ! i # rest"
      "spliceBack isKind reps (Suc i) ps = Some rest"
      using Cons.prems(1) by (auto split: if_splits)
    have "isKind (reps ! i)" using r(1) Cons.prems(2) by simp
    then have "filter isKind ys = reps ! i # take (length (filter isKind ps)) (drop (Suc i) reps)"
      using Cons.IH [OF r(3) Cons.prems(2)] r(2) by simp
    also have "\<dots> = take (Suc (length (filter isKind ps))) (drop i reps)"
      using r(1) by (simp add: Cons_nth_drop_Suc [symmetric])
    finally show ?thesis using True by simp
  next
    case False
    then obtain rest where r: "ys = p # rest" "spliceBack isKind reps i ps = Some rest"
      using Cons.prems(1) by (auto split: if_splits)
    show ?thesis using Cons.IH [OF r(2) Cons.prems(2)] r(1) False by simp
  qed
qed


lemma directiveCompare_le:
  "directiveCompare order a b \<le> 0 \<longleftrightarrow> directiveKey order a \<le> directiveKey order b"
proof -
  have "directiveCompare order a b \<le> 0
        \<longleftrightarrow> directiveCompare order a b < 0 \<or> directiveCompare order a b = 0"
    by linarith
  then show ?thesis
    by (simp only: directiveCompare_less directiveCompare_eq le_less)
qed

lemma sortedDirectives_sort_key:
  "stableSort ds (\<lambda>a b. directiveCompare order (snd a) (snd b))
     = sort_key (\<lambda>p. directiveKey order (snd p)) ds"
  by (rule stableSort_sort_key) (simp_all add: directiveCompare_less directiveCompare_eq)

lemma reorderDirectives_result:
  "\<exists>ys. reorderDirectives order xs = Some ys
     \<and> map (\<lambda>p. isDirectiveNode (snd p)) ys = map (\<lambda>p. isDirectiveNode (snd p)) xs
     \<and> (\<forall>j<length xs. \<not> isDirectiveNode (snd (xs ! j)) \<longrightarrow> ys ! j = xs ! j)
     \<and> filter (\<lambda>p. isDirectiveNode (snd p)) ys
         = sort_key (\<lambda>p. directiveKey order (snd p)) (filter (\<lambda>p. isDirectiveNode (snd p)) xs)"
proof -
  let ?isD = "\<lambda>p :: PropRef. isDirectiveNode (snd p)"
  let ?K = "\<lambda>p :: PropRef. directiveKey order (snd p)"
  let ?ds = "filter ?isD xs"
  let ?reps = "sort_key ?K ?ds"
  have def: "reorderDirectives order xs = spliceBack ?isD ?reps 0 xs"
    by (simp add: reorderDirectives_def sortedDirectives_sort_key)
  have len: "length ?reps = length ?ds" by simp
  have allD: "\<forall>r\<in>set ?reps. ?isD r" by simp
  obtain ys where ys: "spliceBack ?isD ?reps 0 xs = Some ys"
    using spliceBack_total [of 0 ?isD xs ?reps] len by auto
  have k: "map ?isD ys = map ?isD xs"
    using spliceBack_kinds [OF ys allD] .
  have others: "\<forall>j<length xs. \<not> ?isD (xs ! j) \<longrightarrow> ys ! j = xs ! j"
    using spliceBack_others [OF ys] by blast
  have f: "filter ?isD ys = ?reps"
    using spliceBack_filter [OF ys allD] len by simp
  show ?thesis
    unfolding def ys by (intro exI [of _ ys] conjI refl k others f)
qed

text \<open>
  C7. Directive ordering always yields a list (no entry is undefined) of the same length.
  Every prop that is not a directive keeps its index; an index holds a directive after the
  ordering exactly when it held one before; the directives of the result are a
  permutation of the directives of the input, in ascending order of the comparison
  (weight, then name); and the directives that compare equal to any given directive
  appear in their original relative order.
\<close>

theorem directive_splice_back:
  "\<exists>ys. reorderDirectives order xs = Some ys
     \<and> length ys = length xs
     \<and> (\<forall>j<length xs. \<not> isDirectiveNode (snd (xs ! j)) \<longrightarrow> ys ! j = xs ! j)
     \<and> (\<forall>j<length xs. isDirectiveNode (snd (ys ! j)) = isDirectiveNode (snd (xs ! j)))
     \<and> mset (filter (\<lambda>p. isDirectiveNode (snd p)) ys)
         = mset (filter (\<lambda>p. isDirectiveNode (snd p)) xs)
     \<and> sorted_wrt (\<lambda>a b. directiveCompare order (snd a) (snd b) \<le> 0)
         (filter (\<lambda>p. isDirectiveNode (snd p)) ys)
     \<and> (\<forall>d. filter (\<lambda>p. directiveCompare order d (snd p) = 0)
               (filter (\<lambda>p. isDirectiveNode (snd p)) ys)
            = filter (\<lambda>p. directiveCompare order d (snd p) = 0)
               (filter (\<lambda>p. isDirectiveNode (snd p)) xs))"
proof -
  let ?isD = "\<lambda>p :: PropRef. isDirectiveNode (snd p)"
  let ?K = "\<lambda>p :: PropRef. directiveKey order (snd p)"
  let ?ds = "filter ?isD xs"
  let ?reps = "sort_key ?K ?ds"
  obtain ys where ys: "reorderDirectives order xs = Some ys"
    and k: "map ?isD ys = map ?isD xs"
    and others: "\<forall>j<length xs. \<not> ?isD (xs ! j) \<longrightarrow> ys ! j = xs ! j"
    and f: "filter ?isD ys = ?reps"
    using reorderDirectives_result [of order xs] by blast
  have l: "length ys = length xs"
    using k by (metis length_map)
  have kinds: "\<forall>j<length xs. ?isD (ys ! j) = ?isD (xs ! j)"
  proof (intro allI impI)
    fix j assume j: "j < length xs"
    then have "map ?isD ys ! j = map ?isD xs ! j" using k by simp
    then show "?isD (ys ! j) = ?isD (xs ! j)" using j l by simp
  qed
  have m: "mset (filter ?isD ys) = mset ?ds"
    unfolding f by (rule mset_sort)
  have "sorted (map ?K ?reps)" by (rule sorted_sort_key)
  then have "sorted_wrt (\<lambda>a b. ?K a \<le> ?K b) ?reps" by (simp add: sorted_map)
  then have srt: "sorted_wrt (\<lambda>a b. directiveCompare order (snd a) (snd b) \<le> 0) (filter ?isD ys)"
    unfolding f by (simp add: directiveCompare_le)
  have st: "filter (\<lambda>p. directiveCompare order d (snd p) = 0) (filter ?isD ys)
            = filter (\<lambda>p. directiveCompare order d (snd p) = 0) ?ds" for d
  proof -
    have "filter (\<lambda>p. ?K p = directiveKey order d) ?reps
          = filter (\<lambda>p. ?K p = directiveKey order d) ?ds"
      by (rule sort_key_stable)
    moreover have "directiveCompare order d (snd p) = 0 \<longleftrightarrow> ?K p = directiveKey order d"
      for p :: PropRef
      using directiveCompare_eq [of order d "snd p"] by (simp only: eq_commute)
    ultimately show ?thesis
      unfolding f by (simp only:)
  qed
  show ?thesis
    unfolding ys by (intro exI [of _ ys] conjI refl l others kinds m srt allI st)
qed

theorem directive_splice_back_witness:
  "reorderDirectives (directiveOrder defaultOptions) mixedProps
     = Some [mixedProps ! 2, mixedProps ! 1, mixedProps ! 0]
   \<and> \<not> isDirectiveNode (snd (mixedProps ! 1))
   \<and> [mixedProps ! 2, mixedProps ! 1, mixedProps ! 0] ! 1 = mixedProps ! 1
   \<and> sorted_wrt (\<lambda>a b. directiveCompare (directiveOrder defaultOptions) (snd a) (snd b) \<le> 0)
        (filter (\<lambda>p. isDirectiveNode (snd p)) [mixedProps ! 2, mixedProps ! 1, mixedProps ! 0])"
proof -
  have e: "reorderDirectives (directiveOrder defaultOptions) mixedProps
             = Some [mixedProps ! 2, mixedProps ! 1, mixedProps ! 0]"
    by (simp add: reorderDirectives_def mixedProps_def stableSort_def sortBy_def
        directiveCompare_def weightOf_def weightMap_def defaultOptions_def asciiCompare_def
        Let_def)
  have a: "\<not> isDirectiveNode (snd (mixedProps ! 1))" "(1::nat) < length mixedProps"
    by (simp_all add: mixedProps_def)
  show ?thesis
    using directive_splice_back [of "directiveOrder defaultOptions" mixedProps] e a
    by auto
qed

subsection \<open>The function never throws\<close>

lemma length_insertBy: "length (insertBy cmp x ys) = Suc (length ys)"
  by (induction ys) simp_all

lemma length_sortBy: "length (sortBy cmp xs) = length xs"
  by (induction xs) (simp_all add: sortBy_def length_insertBy)

lemma length_stableSort: "length (stableSort xs cmp) = length xs"
  by (simp add: stableSort_def length_sortBy)

lemma reorderDirectives_total: "\<exists>ys. reorderDirectives order xs = Some ys"
  unfolding reorderDirectives_def Let_def
  by (rule spliceBack_total) (simp add: length_stableSort)

lemma reorderAttributes_total: "\<exists>ys. reorderAttributes xs = Some ys"
  unfolding reorderAttributes_def Let_def
  by (rule spliceBack_total) (simp add: length_stableSort)

lemma orderingStage_total:
  assumes "\<And>xs. \<exists>ys. reorder xs = Some ys"
  shows "\<exists>st'. orderingStage enabled reorder st = Inr st'"
proof -
  obtain ys where "reorder (fst st) = Some ys" using assms by blast
  then show ?thesis by (simp add: orderingStage_def)
qed

lemma sortedOf_total: "\<exists>st. sortedOf options ps = Inr st"
proof -
  obtain st1 where s1: "orderingStage (orderDirectives options)
      (reorderDirectives (directiveOrder options))
      (transformedOf options ps, changedByFirstPass options ps) = Inr st1"
    using orderingStage_total [of "reorderDirectives (directiveOrder options)"]
      reorderDirectives_total by blast
  obtain st2 where "orderingStage (orderAttributes options) reorderAttributes st1 = Inr st2"
    using orderingStage_total [of reorderAttributes] reorderAttributes_total by blast
  then show ?thesis using s1 by (simp add: sortedOf_def)
qed

text \<open>No entry of the reordered array is ever undefined: the function returns a
  replacement or \<open>null\<close>, and never throws.\<close>

lemma buildUnifiedAttributeReplacement_total:
  "\<exists>res. buildUnifiedAttributeReplacement element templateOffset options = Inr res"
proof -
  obtain sp ch where "sortedOf options (props element) = Inr (sp, ch)"
    using sortedOf_total [of options "props element"] by (metis surj_pair)
  then show ?thesis
    by (simp add: buildUnifiedAttributeReplacement_def Let_def)
qed

subsection \<open>The fallback weight\<close>

lemma weightMap_snoc: "weightMap (xs @ [x]) = (weightMap xs)(x \<mapsto> int (length xs))"
proof -
  have "zip (xs @ [x]) [0..<length (xs @ [x])] = zip xs [0..<length xs] @ [(x, length xs)]"
    by simp
  then show ?thesis by (simp add: weightMap_def del: upt_Suc)
qed

lemma weightMap_None: "weightMap xs nm = None \<longleftrightarrow> nm \<notin> set xs"
proof (induction xs rule: rev_induct)
  case Nil
  then show ?case by (simp add: weightMap_def)
next
  case (snoc x xs)
  then show ?case by (auto simp: weightMap_snoc)
qed

lemma weightMap_bound: "weightMap xs nm = Some w \<Longrightarrow> w < int (length xs)"
proof (induction xs rule: rev_induct)
  case Nil
  then show ?case by (simp add: weightMap_def)
next
  case (snoc x xs)
  then show ?case by (cases "nm = x") (auto simp: weightMap_snoc)
qed

lemma weightOf_last: "weightOf (xs @ [x]) x = int (length xs)"
  by (simp add: weightOf_def weightMap_snoc)

lemma weightOf_absent: "nm \<notin> set xs \<Longrightarrow> weightOf xs nm = 1000"
  using weightMap_None [of xs nm] by (simp add: weightOf_def)

lemma weightOf_present: "nm \<in> set xs \<Longrightarrow> weightOf xs nm < int (length xs)"
proof -
  assume "nm \<in> set xs"
  then obtain w where w: "weightMap xs nm = Some w"
    using weightMap_None [of xs nm] by auto
  then show ?thesis using weightMap_bound [OF w] by (simp add: weightOf_def)
qed

text \<open>
  With at most 1000 names in the priority list, no directive with a listed name follows a
  directive with an unlisted one, and unlisted names are in ascending order.
\<close>

lemma unlisted_after_listed:
  assumes short: "length order \<le> 1000"
    and r: "reorderDirectives order xs = Some ys"
    and ij: "i < j" "j < length (filter (\<lambda>p. isDirectiveNode (snd p)) ys)"
    and u: "name (snd (filter (\<lambda>p. isDirectiveNode (snd p)) ys ! i)) \<notin> set order"
  shows "name (snd (filter (\<lambda>p. isDirectiveNode (snd p)) ys ! j)) \<notin> set order
    \<and> name (snd (filter (\<lambda>p. isDirectiveNode (snd p)) ys ! i))
        \<le> name (snd (filter (\<lambda>p. isDirectiveNode (snd p)) ys ! j))"
proof -
  let ?isD = "\<lambda>p :: PropRef. isDirectiveNode (snd p)"
  let ?K = "\<lambda>p :: PropRef. directiveKey order (snd p)"
  let ?D = "filter ?isD ys"
  have f: "?D = sort_key ?K (filter ?isD xs)"
    using reorderDirectives_result [of order xs] r by auto
  have "sorted (map ?K ?D)" unfolding f by (rule sorted_sort_key)
  then have "sorted_wrt (\<lambda>a b. ?K a \<le> ?K b) ?D" by (simp add: sorted_map)
  then have le: "?K (?D ! i) \<le> ?K (?D ! j)"
    using ij by (simp add: sorted_wrt_iff_nth_less)
  have wi: "weightOf order (name (snd (?D ! i))) = 1000"
    using u by (rule weightOf_absent)
  have nj: "name (snd (?D ! j)) \<notin> set order"
  proof
    assume "name (snd (?D ! j)) \<in> set order"
    then have "weightOf order (name (snd (?D ! j))) < 1000"
      using weightOf_present [of "name (snd (?D ! j))" order] short by simp
    then show False using le wi by (simp add: directiveKey_def less_eq_prod_def)
  qed
  then have "weightOf order (name (snd (?D ! j))) = 1000" by (rule weightOf_absent)
  then show ?thesis using nj le wi by (simp add: directiveKey_def less_eq_prod_def)
qed

lemma weightOf_zz: "weightOf manyNames ''zz'' = 1001"
  unfolding manyNames_def by (simp only: weightOf_last) simp

lemma weightOf_custom: "weightOf manyNames ''custom'' = 1000"
proof -
  have "''custom'' \<notin> set manyNames"
    by (auto simp: manyNames_def)
  then show ?thesis by (rule weightOf_absent)
qed

text \<open>
  C4, at a priority list of 1002 names. The listed name \<open>zz\<close> has weight 1001, the
  unlisted name \<open>custom\<close> has the fallback weight 1000, and for
  \<open><div v-zz="1" v-custom="2">\<close> the emitted text puts the unlisted directive before the
  listed one.
\<close>

theorem fallback_weight_overtaken:
  "length manyNames = 1002
   \<and> ''zz'' \<in> set manyNames \<and> ''custom'' \<notin> set manyNames
   \<and> weightOf manyNames ''zz'' = 1001 \<and> weightOf manyNames ''custom'' = 1000
   \<and> buildUnifiedAttributeReplacement zzCustomDiv 0
        (defaultOptions \<lparr> directiveOrder := manyNames \<rparr>)
      = Inr (Some \<lparr> rstart = 5, rend = 26,
                    rvalue = quoted ''v-custom'' ''2'' @ '' '' @ quoted ''v-zz'' ''1'' \<rparr>)"
proof -
  have b: "buildUnifiedAttributeReplacement zzCustomDiv 0
        (defaultOptions \<lparr> directiveOrder := manyNames \<rparr>)
      = Inr (Some \<lparr> rstart = 5, rend = 26,
                    rvalue = quoted ''v-custom'' ''2'' @ '' '' @ quoted ''v-zz'' ''1'' \<rparr>)"
    by (simp add: buildUnifiedAttributeReplacement_def zzCustomDiv_def defaultOptions_def
      separatorOf_def sortedOf_def orderingStage_def transformedOf_def changedByFirstPass_def
      transformProp_def directiveRewrite_def getDirectiveTransform_def newDirectiveOf_def
      buildDirective_def reorderDirectives_def reorderAttributes_def stableSort_def sortBy_def
      directiveCompare_def movedFrom_def weightOf_zz weightOf_custom locAt_def quoted_def
      asciiCompare_def Let_def)
  have m: "length manyNames = 1002" "''zz'' \<in> set manyNames" "''custom'' \<notin> set manyNames"
    by (auto simp: manyNames_def)
  show ?thesis using b m weightOf_zz weightOf_custom by simp
qed

section \<open>The span of the replacement\<close>

lemma replacement_span:
  assumes "buildUnifiedAttributeReplacement element templateOffset options = Inr (Some r)"
  shows "props element \<noteq> []
    \<and> rstart r = templateOffset + startOffset (loc (hd (props element)))
    \<and> rend r = templateOffset + endOffset (loc (last (props element)))"
proof -
  have ne: "props element \<noteq> []"
    using assms by (auto simp: buildUnifiedAttributeReplacement_def)
  obtain sp ch where "sortedOf options (props element) = Inr (sp, ch)"
    using assms ne
    by (cases "sortedOf options (props element)")
      (auto simp: buildUnifiedAttributeReplacement_def)
  then have "r = \<lparr> rstart = templateOffset + startOffset (loc (hd (props element))),
                   rend = templateOffset + endOffset (loc (last (props element))),
                   rvalue = join (separatorOf element options)
                              (map (\<lambda>p. source (loc (snd p))) sp) \<rparr>"
    using assms ne
    by (cases ch) (simp_all add: buildUnifiedAttributeReplacement_def Let_def)
  then show ?thesis
    using ne by simp
qed

text \<open>
  C3. When a replacement is emitted for an element, the prop list is not empty and the
  replacement covers the range from the start of the first prop of the original list to
  the end of its last prop, shifted by the template offset, whatever the options rewrite
  or reorder.
\<close>

theorem span_exactness:
  assumes "buildUnifiedAttributeReplacement element templateOffset options = Inr (Some r)"
  shows "props element \<noteq> []
    \<and> rstart r = templateOffset + startOffset (loc (props element ! 0))
    \<and> rend r = templateOffset + endOffset (loc (props element ! (length (props element) - 1)))"
  using replacement_span [OF assms] by (simp add: hd_conv_nth last_conv_nth)

theorem span_exactness_witness:
  "buildUnifiedAttributeReplacement bindIfModelDiv 10 defaultOptions
     = Inr (Some \<lparr> rstart = 18, rend = 49,
                   rvalue = quoted ''v-if'' ''x'' @ '' '' @ quoted ''v-model'' ''y'' @ '' ''
                            @ quoted ''v-bind'' ''a'' \<rparr>)
   \<and> props bindIfModelDiv \<noteq> []
   \<and> (18::int) = 10 + startOffset (loc (props bindIfModelDiv ! 0))
   \<and> (49::int) = 10 + endOffset (loc (props bindIfModelDiv ! (length (props bindIfModelDiv) - 1)))"
proof -
  have e: "buildUnifiedAttributeReplacement bindIfModelDiv 10 defaultOptions
     = Inr (Some \<lparr> rstart = 18, rend = 49,
                   rvalue = quoted ''v-if'' ''x'' @ '' '' @ quoted ''v-model'' ''y'' @ '' ''
                            @ quoted ''v-bind'' ''a'' \<rparr>)"
    by code_simp
  show ?thesis
    using span_exactness [OF e] e by simp
qed

section \<open>The separator\<close>

lemma slice_take_drop:
  assumes "0 \<le> a" "0 \<le> b"
  shows "slice s a b = take (nat (b - a)) (drop (nat a) s)"
proof -
  have ia: "sliceIndex s a = min (nat a) (length s)"
    using assms by (auto simp: sliceIndex_def Let_def min_def)
  have ib: "sliceIndex s b = min (nat b) (length s)"
    using assms by (auto simp: sliceIndex_def Let_def min_def)
  have n: "nat (b - a) = nat b - nat a" using assms by simp
  show ?thesis
  proof (cases "nat a < length s")
    case True
    then have "take (min (nat b) (length s) - nat a) (drop (nat a) s)
               = take (nat b - nat a) (drop (nat a) s)"
      by (cases "nat b \<le> length s") (simp_all add: min_def)
    then show ?thesis using True by (simp add: slice_def ia ib n min_def)
  next
    case False
    then show ?thesis by (simp add: slice_def ia ib)
  qed
qed

lemma separatorOf_gap:
  assumes "attributeLayout opts = AttributePreserve \<Longrightarrow> 1 < length (props e) \<Longrightarrow>
      startOffset (elementLoc e) \<le> endOffset (loc (props e ! 0))
      \<and> startOffset (elementLoc e) \<le> startOffset (loc (props e ! 1))"
  shows "separatorOf e opts =
     (if attributeLayout opts = AttributePreserve \<and> 1 < length (props e)
         \<and> newline \<in> set (originalGap e) then originalGap e else '' '')"
proof (cases "props e")
  case Nil
  then show ?thesis by (simp add: separatorOf_def)
next
  case (Cons p0 ps)
  show ?thesis
  proof (cases ps)
    case Nil
    then show ?thesis using Cons by (simp add: separatorOf_def)
  next
    case (Cons p1 rest)
    show ?thesis
    proof (cases "attributeLayout opts = AttributePreserve")
      case True
      have "1 < length (props e)" using \<open>props e = p0 # ps\<close> Cons by simp
      then have "startOffset (elementLoc e) \<le> endOffset (loc (props e ! 0))"
        and "startOffset (elementLoc e) \<le> startOffset (loc (props e ! 1))"
        using assms True by blast+
      then have "gapOf e p0 p1 = originalGap e"
        using \<open>props e = p0 # ps\<close> Cons
        by (simp add: gapOf_def originalGap_def Let_def slice_take_drop)
      then show ?thesis
        using \<open>props e = p0 # ps\<close> Cons by (simp add: separatorOf_def Let_def)
    next
      case False
      then show ?thesis
        using \<open>props e = p0 # ps\<close> Cons by (simp add: separatorOf_def)
    qed
  qed
qed

text \<open>
  C9. When a replacement is emitted for an element, its text is the source texts of the
  reordered props joined by the separator. The separator is the original gap between the
  first two props when the attribute layout is \<open>preserve\<close>, there is more than one prop
  and that gap contains a line feed; in every other case (layout \<open>inline\<close>, a single
  prop, a gap without a line feed) it is a single space. Only in the \<open>preserve\<close> case
  with more than one prop is anything asked of the offsets: the first two props do not
  lie before the start of the element.
\<close>

theorem layout_separator:
  assumes b: "buildUnifiedAttributeReplacement e off opts = Inr (Some r)"
    and o: "attributeLayout opts = AttributePreserve \<Longrightarrow> 1 < length (props e) \<Longrightarrow>
      startOffset (elementLoc e) \<le> endOffset (loc (props e ! 0))
      \<and> startOffset (elementLoc e) \<le> startOffset (loc (props e ! 1))"
  shows "\<exists>sortedProps. sortedOf opts (props e) = Inr (sortedProps, True)
     \<and> rvalue r =
         join (if attributeLayout opts = AttributePreserve \<and> 1 < length (props e)
                  \<and> newline \<in> set (originalGap e) then originalGap e else '' '')
           (map (\<lambda>p. source (loc (snd p))) sortedProps)"
proof -
  have ne: "props e \<noteq> []"
    using b by (auto simp: buildUnifiedAttributeReplacement_def)
  obtain sp ch where s: "sortedOf opts (props e) = Inr (sp, ch)"
    using b ne
    by (cases "sortedOf opts (props e)") (auto simp: buildUnifiedAttributeReplacement_def)
  have ch: "ch" using b ne s
    by (cases ch) (simp_all add: buildUnifiedAttributeReplacement_def)
  have "rvalue r = join (separatorOf e opts) (map (\<lambda>p. source (loc (snd p))) sp)"
    using b ne s ch by (auto simp: buildUnifiedAttributeReplacement_def Let_def)
  then show ?thesis
    using s ch by (simp only: separatorOf_gap [OF o]) blast
qed

theorem layout_separator_witness:
  "buildUnifiedAttributeReplacement multiLineDiv 10 preserveOptions
     = Inr (Some \<lparr> rstart = 22, rend = 42,
                   rvalue = quoted ''class'' ''b'' @ [newline] @ ''    '' @ quoted ''id'' ''a'' \<rparr>)
   \<and> attributeLayout preserveOptions = AttributePreserve \<and> 1 < length (props multiLineDiv)
   \<and> startOffset (elementLoc multiLineDiv) \<le> endOffset (loc (props multiLineDiv ! 0))
   \<and> startOffset (elementLoc multiLineDiv) \<le> startOffset (loc (props multiLineDiv ! 1))
   \<and> originalGap multiLineDiv = [newline] @ ''    ''
   \<and> (\<exists>sortedProps. sortedOf preserveOptions (props multiLineDiv) = Inr (sortedProps, True)
        \<and> quoted ''class'' ''b'' @ [newline] @ ''    '' @ quoted ''id'' ''a''
            = join ([newline] @ ''    '') (map (\<lambda>p. source (loc (snd p))) sortedProps))
   \<and> buildUnifiedAttributeReplacement multiLineDiv 10 defaultOptions
     = Inr (Some \<lparr> rstart = 22, rend = 42,
                   rvalue = quoted ''class'' ''b'' @ '' '' @ quoted ''id'' ''a'' \<rparr>)
   \<and> attributeLayout defaultOptions \<noteq> AttributePreserve
   \<and> (\<exists>sortedProps. sortedOf defaultOptions (props multiLineDiv) = Inr (sortedProps, True)
        \<and> quoted ''class'' ''b'' @ '' '' @ quoted ''id'' ''a''
            = join '' '' (map (\<lambda>p. source (loc (snd p))) sortedProps))
   \<and> buildUnifiedAttributeReplacement singleClassDiv 10 preserveOptions
     = Inr (Some \<lparr> rstart = 22, rend = 33, rvalue = quoted ''class'' ''a b'' \<rparr>)
   \<and> length (props singleClassDiv) = 1
   \<and> (\<exists>sortedProps. sortedOf preserveOptions (props singleClassDiv) = Inr (sortedProps, True)
        \<and> quoted ''class'' ''a b'' = join '' '' (map (\<lambda>p. source (loc (snd p))) sortedProps))"
proof -
  have e1: "buildUnifiedAttributeReplacement multiLineDiv 10 preserveOptions
     = Inr (Some \<lparr> rstart = 22, rend = 42,
                   rvalue = quoted ''class'' ''b'' @ [newline] @ ''    '' @ quoted ''id'' ''a'' \<rparr>)"
    by code_simp
  have e2: "buildUnifiedAttributeReplacement multiLineDiv 10 defaultOptions
     = Inr (Some \<lparr> rstart = 22, rend = 42,
                   rvalue = quoted ''class'' ''b'' @ '' '' @ quoted ''id'' ''a'' \<rparr>)"
    by code_simp
  have e3: "buildUnifiedAttributeReplacement singleClassDiv 10 preserveOptions
     = Inr (Some \<lparr> rstart = 22, rend = 33, rvalue = quoted ''class'' ''a b'' \<rparr>)"
    by code_simp
  have o: "startOffset (elementLoc multiLineDiv) \<le> endOffset (loc (props multiLineDiv ! 0))"
    "startOffset (elementLoc multiLineDiv) \<le> startOffset (loc (props multiLineDiv ! 1))"
    by (simp_all add: multiLineDiv_def locAt_def)
  have g: "originalGap multiLineDiv = [newline] @ ''    ''"
    by (simp add: originalGap_def multiLineDiv_def locAt_def quoted_def)
  have a: "attributeLayout preserveOptions = AttributePreserve" "1 < length (props multiLineDiv)"
    "attributeLayout defaultOptions \<noteq> AttributePreserve" "length (props singleClassDiv) = 1"
    by (simp_all add: preserveOptions_def defaultOptions_def multiLineDiv_def singleClassDiv_def)
  have w1: "\<exists>sortedProps. sortedOf preserveOptions (props multiLineDiv) = Inr (sortedProps, True)
        \<and> quoted ''class'' ''b'' @ [newline] @ ''    '' @ quoted ''id'' ''a''
            = join ([newline] @ ''    '') (map (\<lambda>p. source (loc (snd p))) sortedProps)"
    using layout_separator [OF e1] o g a by simp
  have w2: "\<exists>sortedProps. sortedOf defaultOptions (props multiLineDiv) = Inr (sortedProps, True)
        \<and> quoted ''class'' ''b'' @ '' '' @ quoted ''id'' ''a''
            = join '' '' (map (\<lambda>p. source (loc (snd p))) sortedProps)"
    using layout_separator [OF e2] a by simp
  have w3: "\<exists>sortedProps. sortedOf preserveOptions (props singleClassDiv) = Inr (sortedProps, True)
        \<and> quoted ''class'' ''a b'' = join '' '' (map (\<lambda>p. source (loc (snd p))) sortedProps)"
    using layout_separator [OF e3] a by simp
  show ?thesis
    using e1 e2 e3 o g a w1 w2 w3 by simp
qed

section \<open>Classes\<close>

lemma splitPieces_white:
  "\<forall>c\<in>set s. isWhiteSpace c \<Longrightarrow> filter (\<lambda>c. c \<noteq> []) (splitPieces inGap [] s) = []"
  by (induction s arbitrary: inGap) simp_all

lemma classesOf_white: "\<forall>c\<in>set v. isWhiteSpace c \<Longrightarrow> classesOf v = []"
  by (simp add: classesOf_def splitWhiteSpace_def splitPieces_white)

lemma processedOf_white: "\<forall>c\<in>set v. isWhiteSpace c \<Longrightarrow> processedOf opts v = []"
  by (simp add: processedOf_def classesOf_white uniqueOf_def sortBy_def)

lemma stableSort_Nil: "stableSort [] cmp = []"
  by (simp add: stableSort_def sortBy_def)

lemma stableSort_single: "stableSort [x] cmp = [x]"
  by (simp add: stableSort_def sortBy_def)

lemma reorderDirectives_single: "reorderDirectives order [x] = Some [x]"
  by (simp add: reorderDirectives_def stableSort_Nil stableSort_single)

lemma reorderAttributes_single: "reorderAttributes [x] = Some [x]"
  by (simp add: reorderAttributes_def stableSort_Nil stableSort_single)

lemma sortedOf_single_changed:
  assumes "transformProp opts prop = Some clone"
  shows "sortedOf opts [prop] = Inr ([(Cloned 0, clone)], True)"
  using assms
  by (simp add: sortedOf_def orderingStage_def transformedOf_def changedByFirstPass_def
      reorderDirectives_single reorderAttributes_single)

text \<open>
  C10. A \<open>class\<close> attribute whose value is not empty and holds white space only, with
  sorting or duplicate removal enabled, the class layout \<open>preserve\<close> and a line feed in
  the attribute's source text, is rewritten to \<open>class=\<close>, the quote, the text
  \<open>undefined\<close> and the quote; an element with this attribute as its only prop gets a
  replacement with that text.
\<close>

theorem whitespace_only_class:
  assumes v: "v \<noteq> []" "\<forall>c\<in>set v. isWhiteSpace c"
    and o: "sortClasses opts \<or> removeDuplicates opts" "classLayout opts = ClassPreserve"
    and n: "newline \<in> set (source l)"
  shows "transformProp opts (AttributeNode ''class'' (Some v) l)
           = Some (AttributeNode ''class'' (Some v)
                (l\<lparr>source := ''class='' @ [quoteOf (source l)] @ ''undefined''
                               @ [quoteOf (source l)]\<rparr>))
    \<and> buildUnifiedAttributeReplacement
         \<lparr> props = [AttributeNode ''class'' (Some v) l], elementLoc = el \<rparr> off opts
        = Inr (Some \<lparr> rstart = off + startOffset l, rend = off + endOffset l,
                      rvalue = ''class='' @ [quoteOf (source l)] @ ''undefined''
                               @ [quoteOf (source l)] \<rparr>)"
proof -
  let ?q = "quoteOf (source l)"
  let ?new = "''class='' @ [?q] @ ''undefined'' @ [?q]"
  have r: "rebuiltOf opts (source l) v = ?new"
    using o(2) n
    by (simp add: rebuiltOf_def rebuiltValueOf_def processedOf_white [OF v(2)] Let_def)
  have "newline \<notin> set ?new"
    by (simp add: quoteOf_def newline_def squote_def dquote_def)
  then have d: "?new \<noteq> source l" using n by metis
  have t: "transformProp opts (AttributeNode ''class'' (Some v) l)
             = Some (AttributeNode ''class'' (Some v) (l\<lparr>source := ?new\<rparr>))"
    using o(1) d by (simp add: transformProp_def r Let_def del: append.simps)
  have "buildUnifiedAttributeReplacement
         \<lparr> props = [AttributeNode ''class'' (Some v) l], elementLoc = el \<rparr> off opts
        = Inr (Some \<lparr> rstart = off + startOffset l, rend = off + endOffset l, rvalue = ?new \<rparr>)"
    by (simp add: buildUnifiedAttributeReplacement_def sortedOf_single_changed [OF t]
        del: append.simps)
  then show ?thesis using t by blast
qed

theorem whitespace_only_class_witness:
  "'' '' @ [newline] @ '' '' \<noteq> []
   \<and> sortClasses preserveOptions
   \<and> classLayout preserveOptions = ClassPreserve
   \<and> newline \<in> set (source (locAt 5 (quoted ''class'' ('' '' @ [newline] @ '' ''))))
   \<and> buildUnifiedAttributeReplacement
         \<lparr> props = [AttributeNode ''class'' (Some ('' '' @ [newline] @ '' ''))
                      (locAt 5 (quoted ''class'' ('' '' @ [newline] @ '' '')))],
           elementLoc = locAt 0 (''<div '' @ quoted ''class'' ('' '' @ [newline] @ '' '')
                                  @ ''></div>'') \<rparr> 10 preserveOptions
        = Inr (Some \<lparr> rstart = 15, rend = 26, rvalue = quoted ''class'' ''undefined'' \<rparr>)"
proof -
  let ?v = "'' '' @ [newline] @ '' ''"
  let ?l = "locAt 5 (quoted ''class'' ?v)"
  have v: "?v \<noteq> []" "\<forall>c\<in>set ?v. isWhiteSpace c"
    by (simp_all add: isWhiteSpace_def newline_def)
  have o: "sortClasses preserveOptions \<or> removeDuplicates preserveOptions"
    "classLayout preserveOptions = ClassPreserve"
    by (simp_all add: preserveOptions_def defaultOptions_def)
  have n: "newline \<in> set (source ?l)"
    by (simp add: locAt_def quoted_def)
  show ?thesis
    using whitespace_only_class [OF v o n, of "locAt 0 (''<div '' @ quoted ''class'' ?v
        @ ''></div>'')" 10] v o n
    by (simp add: locAt_def quoted_def preserveOptions_def defaultOptions_def quoteOf_def
        squote_def dquote_def newline_def)
qed

lemma firstOccurrences_snoc:
  "firstOccurrences (ys @ [x]) = firstOccurrences ys @ (if x \<in> set ys then [] else [x])"
proof -
  have "filter (\<lambda>i. (ys @ [x]) ! i \<notin> set (take i (ys @ [x]))) [0..<length ys]
        = filter (\<lambda>i. ys ! i \<notin> set (take i ys)) [0..<length ys]"
    by (rule filter_cong) (simp_all add: nth_append)
  moreover have "map (\<lambda>i. (ys @ [x]) ! i) (filter (\<lambda>i. ys ! i \<notin> set (take i ys)) [0..<length ys])
        = map (\<lambda>i. ys ! i) (filter (\<lambda>i. ys ! i \<notin> set (take i ys)) [0..<length ys])"
    by (rule map_cong) (simp_all add: nth_append)
  ultimately show ?thesis
    by (simp add: firstOccurrences_def)
qed

lemma firstOccurrences_Nil: "firstOccurrences [] = []"
  by (simp add: firstOccurrences_def)

lemma set_firstOccurrences: "set (firstOccurrences xs) = set xs"
  by (induction xs rule: rev_induct) (auto simp: firstOccurrences_snoc firstOccurrences_Nil)

lemma setAddAll_firstOccurrences:
  "setAddAll (firstOccurrences ys) xs = firstOccurrences (ys @ xs)"
proof (induction xs arbitrary: ys)
  case Nil
  then show ?case by simp
next
  case (Cons x xs)
  have "(if x \<in> set (firstOccurrences ys) then firstOccurrences ys
         else firstOccurrences ys @ [x]) = firstOccurrences (ys @ [x])"
    by (simp add: firstOccurrences_snoc set_firstOccurrences)
  then show ?case using Cons [of "ys @ [x]"] by simp
qed

lemma uniqueOf_firstOccurrences: "uniqueOf xs = firstOccurrences xs"
  using setAddAll_firstOccurrences [of "[]" xs] by (simp add: uniqueOf_def firstOccurrences_Nil)

lemma join_concat: "join sep (t # ts) = t @ concat (map (\<lambda>c. sep @ c) ts)"
  by (induction ts arbitrary: t) simp_all

lemma splitPieces_token:
  "\<forall>c\<in>set t. \<not> isWhiteSpace c \<Longrightarrow> t \<noteq> [] \<Longrightarrow>
   splitPieces g piece (t @ rest) = splitPieces False (rev t @ piece) rest"
proof (induction t arbitrary: g piece)
  case Nil
  then show ?case by simp
next
  case (Cons c t)
  show ?case
  proof (cases "t = []")
    case True
    then show ?thesis using Cons.prems by simp
  next
    case False
    then show ?thesis using Cons.IH [of False "c # piece"] Cons.prems by simp
  qed
qed

lemma splitPieces_gap_in:
  "\<forall>c\<in>set w. isWhiteSpace c \<Longrightarrow> splitPieces True piece (w @ rest) = splitPieces True piece rest"
  by (induction w) simp_all

lemma splitPieces_gap:
  assumes "\<forall>c\<in>set w. isWhiteSpace c" "w \<noteq> []"
  shows "splitPieces False piece (w @ rest) = rev piece # splitPieces True [] rest"
proof -
  obtain c w' where w: "w = c # w'" using assms(2) by (cases w) auto
  then show ?thesis using assms(1) splitPieces_gap_in [of w' "[]" rest] by simp
qed

lemma splitPieces_separated:
  assumes sep: "\<forall>c\<in>set sep. isWhiteSpace c" "sep \<noteq> []"
  shows "\<forall>u\<in>set (t # ts). u \<noteq> [] \<and> (\<forall>c\<in>set u. \<not> isWhiteSpace c) \<Longrightarrow>
     filter (\<lambda>c. c \<noteq> []) (splitPieces False (rev t) (concat (map (\<lambda>c. sep @ c) ts))) = t # ts"
proof (induction ts arbitrary: t)
  case Nil
  then show ?case by simp
next
  case (Cons u us)
  have u: "u \<noteq> []" "\<forall>c\<in>set u. \<not> isWhiteSpace c" and t: "t \<noteq> []"
    using Cons.prems by simp_all
  let ?rest = "concat (map (\<lambda>c. sep @ c) us)"
  have "splitPieces False (rev t) (concat (map (\<lambda>c. sep @ c) (u # us)))
        = splitPieces False (rev t) (sep @ (u @ ?rest))"
    by simp
  also have "\<dots> = t # splitPieces True [] (u @ ?rest)"
    using splitPieces_gap [OF sep, of "rev t" "u @ ?rest"] by simp
  also have "\<dots> = t # splitPieces False (rev u) ?rest"
    using splitPieces_token [OF u(2) u(1), of True "[]" ?rest] by simp
  finally show ?case
    using Cons.IH [of u] Cons.prems t by simp
qed

lemma classesOf_separated:
  assumes "\<forall>c\<in>set sep. isWhiteSpace c" "sep \<noteq> []"
    and "\<forall>u\<in>set (t # ts). u \<noteq> [] \<and> (\<forall>c\<in>set u. \<not> isWhiteSpace c)"
  shows "classesOf (t @ concat (map (\<lambda>c. sep @ c) ts)) = t # ts"
proof -
  have "t \<noteq> []" "\<forall>c\<in>set t. \<not> isWhiteSpace c" using assms(3) by simp_all
  then have "splitPieces False [] (t @ concat (map (\<lambda>c. sep @ c) ts))
             = splitPieces False (rev t) (concat (map (\<lambda>c. sep @ c) ts))"
    using splitPieces_token [of t False "[]"] by simp
  then show ?thesis
    using splitPieces_separated [OF assms(1,2), of t ts] assms(3)
    by (simp add: classesOf_def splitWhiteSpace_def)
qed

lemma splitPieces_clean:
  assumes "p \<in> set (splitPieces g piece s)" and "\<forall>c\<in>set piece. \<not> isWhiteSpace c"
  shows "\<forall>c\<in>set p. \<not> isWhiteSpace c"
  using assms
proof (induction s arbitrary: g piece)
  case Nil
  then have "p = rev piece" by simp
  then show ?case using Nil.prems(2) by simp
next
  case (Cons a s)
  show ?case
  proof (cases "isWhiteSpace a")
    case ws: True
    show ?thesis
    proof (cases g)
      case True
      then have "p \<in> set (splitPieces True piece s)" using Cons.prems(1) ws by simp
      then show ?thesis using Cons.prems(2) by (rule Cons.IH)
    next
      case False
      then have "p = rev piece \<or> p \<in> set (splitPieces True [] s)"
        using Cons.prems(1) ws by simp
      then show ?thesis
      proof
        assume "p = rev piece"
        then show ?thesis using Cons.prems(2) by simp
      next
        assume m: "p \<in> set (splitPieces True [] s)"
        have e: "\<forall>c\<in>set ([] :: string). \<not> isWhiteSpace c" by simp
        show ?thesis using m e by (rule Cons.IH)
      qed
    qed
  next
    case False
    then have m: "p \<in> set (splitPieces False (a # piece) s)" using Cons.prems(1) by simp
    have e: "\<forall>c\<in>set (a # piece). \<not> isWhiteSpace c" using False Cons.prems(2) by simp
    show ?thesis using m e by (rule Cons.IH)
  qed
qed

lemma classesOf_tokens:
  "\<forall>u\<in>set (classesOf s). u \<noteq> [] \<and> (\<forall>c\<in>set u. \<not> isWhiteSpace c)"
proof
  fix u
  assume "u \<in> set (classesOf s)"
  then have n: "u \<noteq> []" and m: "u \<in> set (splitPieces False [] s)"
    by (simp_all add: classesOf_def splitWhiteSpace_def)
  have e: "\<forall>c\<in>set ([] :: string). \<not> isWhiteSpace c" by simp
  have "\<forall>c\<in>set u. \<not> isWhiteSpace c" using m e by (rule splitPieces_clean)
  then show "u \<noteq> [] \<and> (\<forall>c\<in>set u. \<not> isWhiteSpace c)" using n by blast
qed

lemma indentMatch_white:
  "indentMatch s = Some i \<Longrightarrow> i \<noteq> [] \<and> (\<forall>c\<in>set i. isWhiteSpace c)"
proof (induction s)
  case Nil
  then show ?case by simp
next
  case (Cons c cs)
  then show ?case by (auto split: if_splits dest: set_takeWhileD)
qed

text \<open>
  With sorting off and duplicate removal on, the tokens of the rebuilt value are exactly
  the first occurrences of the tokens of the value, in their order, unless the value has
  no token, the class layout is \<open>preserve\<close> and the source text holds a line feed.
\<close>

lemma dedup_rebuilt_tokens:
  assumes "\<not> sortClasses opts" "removeDuplicates opts"
    and "classesOf rawValue \<noteq> [] \<or> classLayout opts \<noteq> ClassPreserve
         \<or> newline \<notin> set originalSource"
  shows "classesOf (rebuiltValueOf opts originalSource (processedOf opts rawValue))
           = firstOccurrences (classesOf rawValue)"
proof -
  let ?ts = "firstOccurrences (classesOf rawValue)"
  have p: "processedOf opts rawValue = ?ts"
    using assms(1,2) by (simp add: processedOf_def uniqueOf_firstOccurrences)
  have tok: "\<forall>u\<in>set ?ts. u \<noteq> [] \<and> (\<forall>c\<in>set u. \<not> isWhiteSpace c)"
    using classesOf_tokens [of rawValue] by (simp add: set_firstOccurrences)
  show ?thesis
  proof (cases ?ts)
    case Nil
    then have "classesOf rawValue = []"
      using set_firstOccurrences [of "classesOf rawValue"] by simp
    then have "rebuiltValueOf opts originalSource [] = []"
      using assms(3) by (auto simp: rebuiltValueOf_def)
    then show ?thesis
      using Nil p by (simp add: classesOf_def splitWhiteSpace_def)
  next
    case (Cons t ts)
    have tok': "\<forall>u\<in>set (t # ts). u \<noteq> [] \<and> (\<forall>c\<in>set u. \<not> isWhiteSpace c)"
      using tok Cons by simp
    show ?thesis
    proof (cases "classLayout opts = ClassPreserve \<and> newline \<in> set originalSource")
      case True
      let ?indent = "case indentMatch originalSource of Some i \<Rightarrow> i | None \<Rightarrow> ''  ''"
      have w: "\<forall>c\<in>set ([newline] @ ?indent). isWhiteSpace c" "[newline] @ ?indent \<noteq> []"
        using indentMatch_white [of originalSource]
        by (auto simp: isWhiteSpace_def newline_def split: option.splits)
      have "rebuiltValueOf opts originalSource (t # ts)
            = t @ concat (map (\<lambda>c. ([newline] @ ?indent) @ c) ts)"
        using True by (simp add: rebuiltValueOf_def Let_def)
      then show ?thesis
        using classesOf_separated [OF w tok'] p Cons by simp
    next
      case False
      have w: "\<forall>c\<in>set '' ''. isWhiteSpace c" "'' '' \<noteq> []"
        by (simp_all add: isWhiteSpace_def)
      have "rebuiltValueOf opts originalSource (t # ts)
            = t @ concat (map (\<lambda>c. '' '' @ c) ts)"
        using False by (auto simp: rebuiltValueOf_def join_concat)
      then show ?thesis
        using classesOf_separated [OF w tok'] p Cons by simp
    qed
  qed
qed

text \<open>With both options off the first pass returns every attribute itself: no rewritten
  text is made for a class attribute.\<close>

lemma no_class_rewrite_when_disabled:
  assumes "\<not> sortClasses opts" "\<not> removeDuplicates opts" "isAttributeNode p"
  shows "transformProp opts p = None"
proof -
  have "directiveRewrite opts p = None"
    using assms(3) by (cases p) (simp_all add: directiveRewrite_def)
  then show ?thesis using assms(1,2) by (simp add: transformProp_def)
qed

text \<open>
  C8, at the attribute whose value is a space, a line feed and a space, with sorting off,
  duplicate removal on and the class layout \<open>preserve\<close>. The value has no token, so there
  is no first occurrence to keep; the attribute is rewritten to \<open>class="undefined"\<close>,
  whose value has the one token \<open>undefined\<close>.
\<close>

theorem dedup_emits_undefined:
  "\<not> sortClasses dedupPreserveOptions \<and> removeDuplicates dedupPreserveOptions
   \<and> valueOf blankClass = Some ('' '' @ [newline] @ '' '')
   \<and> firstOccurrences (classesOf ('' '' @ [newline] @ '' '')) = []
   \<and> transformProp dedupPreserveOptions blankClass
       = Some (cloneAttributeWithSource blankClass (quoted ''class'' ''undefined''))
   \<and> classesOf ''undefined'' = [''undefined'']"
  by code_simp

section \<open>The quote of a rebuilt class attribute\<close>

text \<open>The quote is the enclosing one when the value is in single quotes, and when it is
  in double quotes and holds no single quote.\<close>

lemma quoteOf_enclosing:
  assumes "q = squote \<or> q = dquote"
    and "q = dquote \<Longrightarrow> squote \<notin> set v"
  shows "quoteOf (''class='' @ [q] @ v @ [q]) = q"
  using assms by (auto simp: quoteOf_def squote_def dquote_def)

text \<open>
  C5, at the attribute \<open>class="it's"\<close> with the default options. The value is enclosed
  in double quotes in the original text; the first pass rewrites the attribute to
  \<open>class='it's'\<close>, in single quotes.
\<close>

theorem quote_not_preserved:
  "source (loc itsClass) = ''class='' @ [dquote] @ ''it'' @ [squote] @ ''s'' @ [dquote]
   \<and> valueOf itsClass = Some (''it'' @ [squote] @ ''s'')
   \<and> transformProp defaultOptions itsClass
       = Some (cloneAttributeWithSource itsClass
                (''class='' @ [squote] @ ''it'' @ [squote] @ ''s'' @ [squote]))"
  by (simp add: itsClass_def locAt_def quoted_def transformProp_def defaultOptions_def
      rebuiltOf_def rebuiltValueOf_def processedOf_def classesOf_def splitWhiteSpace_def
      uniqueOf_def sortBy_def quoteOf_def isWhiteSpace_def squote_def dquote_def newline_def
      Let_def)

section \<open>The replacements of a document\<close>

lemma ordered_le: "ordered lo hi rs \<Longrightarrow> lo \<le> hi"
  by (induction rs arbitrary: lo) force+

lemma ordered_mono: "ordered lo hi rs \<Longrightarrow> lo' \<le> lo \<Longrightarrow> hi \<le> hi' \<Longrightarrow> ordered lo' hi' rs"
  by (induction rs arbitrary: lo lo') force+

lemma ordered_append: "ordered lo mid rs \<Longrightarrow> ordered mid hi rs' \<Longrightarrow> ordered lo hi (rs @ rs')"
proof (induction rs arbitrary: lo)
  case Nil
  then show ?case using ordered_mono [of mid hi rs' lo hi] by simp
next
  case (Cons r rs)
  then show ?case by simp
qed

lemma ordered_bounds:
  "ordered lo hi rs \<Longrightarrow> r \<in> set rs \<Longrightarrow> lo \<le> rstart r \<and> rstart r < rend r \<and> rend r \<le> hi"
proof (induction rs arbitrary: lo)
  case Nil
  then show ?case by simp
next
  case (Cons a rs)
  show ?case
  proof (cases "r = a")
    case True
    then show ?thesis using Cons.prems ordered_le [of "rend a" hi rs] by simp
  next
    case False
    then have "r \<in> set rs" and o: "ordered (rend a) hi rs"
      using Cons.prems by simp_all
    then have "rend a \<le> rstart r \<and> rstart r < rend r \<and> rend r \<le> hi"
      using Cons.IH [of "rend a"] by blast
    then show ?thesis using Cons.prems(1) by simp
  qed
qed

lemma ordered_sorted: "ordered lo hi rs \<Longrightarrow> sorted_wrt (\<lambda>a b. rend a \<le> rstart b) rs"
proof (induction rs arbitrary: lo)
  case Nil
  then show ?case by simp
next
  case (Cons a rs)
  then show ?case using ordered_bounds [of "rend a" hi rs] by auto
qed

lemma wfProps_end: "wfProps lo ps \<Longrightarrow> lo \<le> propsEnd lo ps"
  by (induction ps arbitrary: lo) force+

lemma propsEnd_last: "ps \<noteq> [] \<Longrightarrow> propsEnd lo ps = endOffset (loc (last ps))"
  by (induction ps arbitrary: lo) auto

lemma wfProps_span:
  assumes "wfProps lo ps" "ps \<noteq> []"
  shows "lo \<le> startOffset (loc (hd ps)) \<and> startOffset (loc (hd ps)) < endOffset (loc (last ps))"
proof -
  obtain p rest where ps: "ps = p # rest" using assms(2) by (cases ps) auto
  then have a: "lo \<le> startOffset (loc p)" "startOffset (loc p) < endOffset (loc p)"
    "wfProps (endOffset (loc p)) rest"
    using assms(1) by simp_all
  have "endOffset (loc p) \<le> propsEnd lo ps" using wfProps_end [OF a(3)] ps by simp
  then show ?thesis using a ps propsEnd_last [OF assms(2), of lo] by simp
qed

text \<open>The walk appends to the array it is given; what it appends for a well-formed node
  lies in order within the node, and for a well-formed list of nodes within its bounds.\<close>

lemma walk_ordered:
  "(\<forall>out. walk off opts n acc = Inr out \<longrightarrow> wfNode n \<longrightarrow>
      (\<exists>rs. out = acc @ rs
         \<and> ordered (off + startOffset (nodeLoc n)) (off + endOffset (nodeLoc n)) rs))"
  "(\<forall>out lo hi. walkEach off opts ns acc = Inr out \<longrightarrow> wfNodes lo hi ns \<longrightarrow>
      (\<exists>rs. out = acc @ rs \<and> ordered (off + lo) (off + hi) rs))"
proof (induction off opts n acc and off opts ns acc rule: walk_walkEach.induct)
  case (1 off opts node children acc)
  show ?case
  proof (intro allI impI)
    fix out
    assume w: "walk off opts (Element node children) acc = Inr out"
      and wf: "wfNode (Element node children)"
    let ?s = "startOffset (elementLoc node)" and ?e = "endOffset (elementLoc node)"
    let ?m = "propsEnd ?s (props node)"
    have wp: "wfProps ?s (props node)" and wc: "wfNodes ?m ?e children"
      using wf by simp_all
    have sm: "?s \<le> ?m" using wfProps_end [OF wp] .
    show "\<exists>rs. out = acc @ rs
         \<and> ordered (off + startOffset (nodeLoc (Element node children)))
              (off + endOffset (nodeLoc (Element node children))) rs"
    proof (cases "buildUnifiedAttributeReplacement node off opts")
      case (Inl err)
      then show ?thesis using w by simp
    next
      case (Inr res)
      show ?thesis
      proof (cases res)
        case None
        then have "walkEach off opts children acc = Inr out" using w Inr by simp
        then obtain rs where rs: "out = acc @ rs" "ordered (off + ?m) (off + ?e) rs"
          using "1.IH"(1) [OF Inr None] wc by blast
        have "ordered (off + ?s) (off + ?e) rs"
          using ordered_mono [OF rs(2), of "off + ?s" "off + ?e"] sm by simp
        then show ?thesis using rs(1) by auto
      next
        case (Some r)
        then have "walkEach off opts children (acc @ [r]) = Inr out" using w Inr by simp
        then obtain rs where rs: "out = (acc @ [r]) @ rs" "ordered (off + ?m) (off + ?e) rs"
          using "1.IH"(2) [OF Inr Some] wc by blast
        have sp: "props node \<noteq> []" "rstart r = off + startOffset (loc (hd (props node)))"
          "rend r = off + endOffset (loc (last (props node)))"
          using replacement_span [of node off opts r] Inr Some by simp_all
        have b: "?s \<le> startOffset (loc (hd (props node)))"
          "startOffset (loc (hd (props node))) < endOffset (loc (last (props node)))"
          using wfProps_span [OF wp sp(1)] by simp_all
        have m: "?m = endOffset (loc (last (props node)))"
          using propsEnd_last [OF sp(1)] .
        have "ordered (off + ?s) (off + ?e) (r # rs)"
          using rs(2) sp b m by simp
        then show ?thesis using rs(1) by auto
      qed
    qed
  qed
next
  case (2 off opts l children acc)
  then show ?case by simp
next
  case (3 off opts l acc)
  then show ?case by simp
next
  case (4 off opts acc)
  then show ?case by simp
next
  case (5 off opts node nodes acc)
  show ?case
  proof (intro allI impI)
    fix out lo hi
    assume w: "walkEach off opts (node # nodes) acc = Inr out"
      and wf: "wfNodes lo hi (node # nodes)"
    obtain acc' where a: "walk off opts node acc = Inr acc'"
      "walkEach off opts nodes acc' = Inr out"
      using w by (cases "walk off opts node acc") simp_all
    have wn: "lo \<le> startOffset (nodeLoc node)" "wfNode node"
      "wfNodes (endOffset (nodeLoc node)) hi nodes"
      using wf by simp_all
    obtain rs1 where r1: "acc' = acc @ rs1"
      "ordered (off + startOffset (nodeLoc node)) (off + endOffset (nodeLoc node)) rs1"
      using "5.IH"(1) a(1) wn(2) by blast
    obtain rs2 where r2: "out = acc' @ rs2"
      "ordered (off + endOffset (nodeLoc node)) (off + hi) rs2"
      using "5.IH"(2) [OF a(1)] a(2) wn(3) by blast
    have "ordered (off + startOffset (nodeLoc node)) (off + hi) (rs1 @ rs2)"
      using ordered_append [OF r1(2) r2(2)] .
    then have "ordered (off + lo) (off + hi) (rs1 @ rs2)"
      using ordered_mono [of _ "off + hi" "rs1 @ rs2" "off + lo" "off + hi"] wn(1) by simp
    then show "\<exists>rs. out = acc @ rs \<and> ordered (off + lo) (off + hi) rs"
      using r1(1) r2(1) by auto
  qed
qed

lemma walk_total:
  "\<exists>out. walk off opts n acc = Inr out"
  "\<exists>out. walkEach off opts ns acc = Inr out"
proof (induction off opts n acc and off opts ns acc rule: walk_walkEach.induct)
  case (1 off opts node children acc)
  obtain res where r: "buildUnifiedAttributeReplacement node off opts = Inr res"
    using buildUnifiedAttributeReplacement_total by blast
  show ?case
  proof (cases res)
    case None
    then show ?thesis using "1.IH"(1) [OF r None] r by simp
  next
    case (Some x)
    then show ?thesis using "1.IH"(2) [OF r Some] r by simp
  qed
next
  case (2 off opts l children acc)
  then show ?case by simp
next
  case (3 off opts l acc)
  then show ?case by simp
next
  case (4 off opts acc)
  then show ?case by simp
next
  case (5 off opts node nodes acc)
  obtain acc' where a: "walk off opts node acc = Inr acc'" using "5.IH"(1) by blast
  then show ?case using "5.IH"(2) [OF a] by simp
qed

text \<open>
  C2. Whatever the document and the options, when the template parser returns
  well-formed trees, every replacement that \<open>vuenifyTransform\<close> returns has its start
  before its end, the replacements come in document order, each ending before the next
  starts, and so the ranges of any two distinct entries do not overlap; this includes the
  replacements of nested elements.
\<close>

theorem replacements_disjoint:
  assumes "\<And>templateContent ast. parseDom templateContent = Inr ast \<Longrightarrow> wfRoot ast"
  shows "(\<forall>r\<in>set (vuenifyTransform parseSfc parseDom src options). rstart r < rend r)
    \<and> sorted_wrt (\<lambda>a b. rend a \<le> rstart b) (vuenifyTransform parseSfc parseDom src options)
    \<and> (\<forall>i j. i < length (vuenifyTransform parseSfc parseDom src options)
          \<and> j < length (vuenifyTransform parseSfc parseDom src options) \<and> i \<noteq> j \<longrightarrow>
          rend (vuenifyTransform parseSfc parseDom src options ! i)
            \<le> rstart (vuenifyTransform parseSfc parseDom src options ! j)
          \<or> rend (vuenifyTransform parseSfc parseDom src options ! j)
            \<le> rstart (vuenifyTransform parseSfc parseDom src options ! i))"
proof -
  let ?out = "vuenifyTransform parseSfc parseDom src options"
  have "\<exists>lo hi. ordered lo hi ?out \<or> ?out = []"
  proof (cases "parseSfc src")
    case None
    then show ?thesis by (simp add: vuenifyTransform_def)
  next
    case (Some template)
    show ?thesis
    proof (cases "content template = [] \<or> trim (content template) = []")
      case True
      then show ?thesis using Some by (auto simp: vuenifyTransform_def)
    next
      case False
      let ?off = "startOffset (blockLoc template)
                    + indexOf (source (blockLoc template)) (content template)"
      show ?thesis
      proof (cases "parseDom (content template)")
        case (Inl err)
        then show ?thesis using Some False by (simp add: vuenifyTransform_def)
      next
        case (Inr ast)
        then have wf: "wfRoot ast" by (rule assms)
        show ?thesis
        proof (cases "rootChildren ast")
          case None
          then show ?thesis using Some False Inr by (simp add: vuenifyTransform_def)
        next
          case (Some children)
          then have wc: "wfNodes 0 (lastEnd 0 children) children"
            using wf by (simp add: wfRoot_def)
          show ?thesis
          proof (cases "walkEach ?off (resolveOptions options) children []")
            case (Inl err)
            then show ?thesis
              using \<open>parseSfc src = Some template\<close> False Inr Some
              by (simp add: vuenifyTransform_def Let_def)
          next
            case (Inr out)
            then have o: "?out = out"
              using \<open>parseSfc src = Some template\<close> False
                \<open>parseDom (content template) = Inr ast\<close> Some
              by (simp add: vuenifyTransform_def Let_def)
            obtain rs where "out = [] @ rs"
              "ordered (?off + 0) (?off + lastEnd 0 children) rs"
              using walk_ordered(2) [of ?off "resolveOptions options" children "[]"] Inr wc
              by blast
            then show ?thesis using o by auto
          qed
        qed
      qed
    qed
  qed
  then obtain lo hi where oh: "ordered lo hi ?out \<or> ?out = []" by blast
  have b: "\<forall>r\<in>set ?out. rstart r < rend r"
    using oh ordered_bounds [of lo hi ?out] by auto
  have s: "sorted_wrt (\<lambda>a b. rend a \<le> rstart b) ?out"
    using oh ordered_sorted [of lo hi ?out] by auto
  have p: "rend (?out ! i) \<le> rstart (?out ! j) \<or> rend (?out ! j) \<le> rstart (?out ! i)"
    if "i < length ?out" "j < length ?out" "i \<noteq> j" for i j
  proof (cases "i < j")
    case True
    then show ?thesis using s that by (simp add: sorted_wrt_iff_nth_less)
  next
    case False
    then have "j < i" using that by simp
    then show ?thesis using s that by (simp add: sorted_wrt_iff_nth_less)
  qed
  show ?thesis using b s p by blast
qed

theorem replacements_disjoint_witness:
  "wfRoot nestedRoot
   \<and> vuenifyTransform (\<lambda>src. Some (templateBlock nestedContent)) (\<lambda>c. Inr nestedRoot)
       (sfcDocument nestedContent) None
     = [\<lparr> rstart = 15, rend = 26, rvalue = quoted ''class'' ''a b'' \<rparr>,
        \<lparr> rstart = 33, rend = 44, rvalue = quoted ''class'' ''c d'' \<rparr>]
   \<and> sorted_wrt (\<lambda>a b. rend a \<le> rstart b)
        [\<lparr> rstart = 15, rend = 26, rvalue = quoted ''class'' ''a b'' \<rparr>,
         \<lparr> rstart = 33, rend = 44, rvalue = quoted ''class'' ''c d'' \<rparr>]"
proof -
  have wf: "wfRoot nestedRoot"
    by (simp add: wfRoot_def nestedRoot_def nestedContent_def locAt_def quoted_def)
  have h: "\<And>templateContent ast.
      (\<lambda>c. Inr nestedRoot :: JsError + RootNode) templateContent = Inr ast \<Longrightarrow> wfRoot ast"
    using wf by simp
  have e: "vuenifyTransform (\<lambda>src. Some (templateBlock nestedContent)) (\<lambda>c. Inr nestedRoot)
       (sfcDocument nestedContent) None
     = [\<lparr> rstart = 15, rend = 26, rvalue = quoted ''class'' ''a b'' \<rparr>,
        \<lparr> rstart = 33, rend = 44, rvalue = quoted ''class'' ''c d'' \<rparr>]"
    by code_simp
  show ?thesis
    using replacements_disjoint [of "\<lambda>c. Inr nestedRoot"
        "\<lambda>src. Some (templateBlock nestedContent)" "sfcDocument nestedContent" None, OF h]
      wf e
    by simp
qed

text \<open>
  C1, at the document \<open><template><div class="' a='"></div></template>\<close> with the default
  options. The first run replaces the attribute by \<open>class='' a=''\<close>; applying the
  replacement gives the document \<open><template><div class='' a=''></div></template>\<close>, in
  which the element has the two attributes \<open>class\<close> and \<open>a\<close>; the second run returns a
  replacement again, which puts \<open>a\<close> before \<open>class\<close>.
\<close>

theorem second_run_replaces_again:
  "vuenifyTransform parseSfcOfExamples parseDomOfExamples (sfcDocument quotesContent) None
     = [\<lparr> rstart = 15, rend = 28,
          rvalue = ''class='' @ [squote, squote] @ '' a='' @ [squote, squote] \<rparr>]
   \<and> applyEdits (sfcDocument quotesContent)
       (vuenifyTransform parseSfcOfExamples parseDomOfExamples (sfcDocument quotesContent) None)
     = sfcDocument rewrittenContent
   \<and> vuenifyTransform parseSfcOfExamples parseDomOfExamples (sfcDocument rewrittenContent) None
     = [\<lparr> rstart = 15, rend = 28,
          rvalue = ''a='' @ [squote, squote] @ '' class='' @ [squote, squote] \<rparr>]"
  by code_simp

end
